theory Spec2Isabelle
  imports Complex_Main
begin

section \<open>Data model of the tic-tac-toe core (src/app/page.tsx)\<close>

text \<open>
  \<^verbatim>\<open>type Player = "X" | "O"\<close>; a cell is \<^verbatim>\<open>Player | null\<close> (\<open>None\<close> is
  \<^verbatim>\<open>null\<close>); a board is a JavaScript array of cells. The constructors carry the
  type's name because \<open>O\<close> is the composition of relations in HOL.
\<close>

datatype Player = PlayerX | PlayerO

type_synonym cell = "Player option"

type_synonym board = "cell list"

datatype Difficulty = Relaxed | Balanced | Perfect

text \<open>
  \<^verbatim>\<open>WINNING_TRIOS\<close>, in the order of the source: three rows, three columns, the two
  diagonals.
\<close>

definition WINNING_TRIOS :: "(nat \<times> nat \<times> nat) list" where
  "WINNING_TRIOS =
     [(0, 1, 2), (3, 4, 5), (6, 7, 8),
      (0, 3, 6), (1, 4, 7), (2, 5, 8),
      (0, 4, 8), (2, 4, 6)]"

definition emptyBoard :: board where
  "emptyBoard = replicate 9 None"

definition nextPlayer :: "Player \<Rightarrow> Player" where
  "nextPlayer player = (if player = PlayerX then PlayerO else PlayerX)"

text \<open>
  Reading \<^verbatim>\<open>board[i]\<close>: an index past the end of a JavaScript array reads
  \<^verbatim>\<open>undefined\<close>, here the outer \<open>None\<close>; \<open>Some None\<close> is \<^verbatim>\<open>null\<close> and
  \<open>Some (Some p)\<close> a mark.
\<close>

definition read :: "board \<Rightarrow> nat \<Rightarrow> cell option" where
  "read board i = (if i < length board then Some (board ! i) else None)"

text \<open>Truthiness of a read value: only a mark is truthy.\<close>

fun truthy :: "cell option \<Rightarrow> bool" where
  "truthy (Some (Some p)) = True"
| "truthy v = False"

text \<open>The object \<^verbatim>\<open>{ winner, line }\<close> returned by \<^verbatim>\<open>evaluateWinner\<close>.\<close>

record evaluation =
  winner :: "Player option"
  line :: "(nat \<times> nat \<times> nat) option"

text \<open>
  The condition of the loop body of \<^verbatim>\<open>evaluateWinner\<close>:
  \<^verbatim>\<open>board[a] && board[a] === board[b] && board[b] === board[c]\<close>.
\<close>

fun trio_complete :: "board \<Rightarrow> nat \<times> nat \<times> nat \<Rightarrow> bool" where
  "trio_complete board (a, b, c) =
     (truthy (read board a) \<and> read board a = read board b \<and> read board b = read board c)"

text \<open>
  The \<^verbatim>\<open>for (const trio of WINNING_TRIOS)\<close> loop: the first trio whose condition
  holds is returned with the mark at its first index; after the loop both fields are
  \<^verbatim>\<open>null\<close>.
\<close>

fun evaluateWinner_loop :: "(nat \<times> nat \<times> nat) list \<Rightarrow> board \<Rightarrow> evaluation" where
  "evaluateWinner_loop [] board = \<lparr>winner = None, line = None\<rparr>"
| "evaluateWinner_loop (trio # trios) board =
     (if trio_complete board trio
      then \<lparr>winner = board ! fst trio, line = Some trio\<rparr>
      else evaluateWinner_loop trios board)"

definition evaluateWinner :: "board \<Rightarrow> evaluation" where
  "evaluateWinner board = evaluateWinner_loop WINNING_TRIOS board"

text \<open>\<^verbatim>\<open>board.every(Boolean)\<close>: every cell is truthy, that is, holds a mark.\<close>

definition every_Boolean :: "board \<Rightarrow> bool" where
  "every_Boolean board = list_all (\<lambda>cell. cell \<noteq> None) board"

text \<open>
  Completed lines on a 9-cell board, for the statements below: a mark holds the three
  cells of a winning line, and a mark has some completed winning line on the board.
\<close>

definition line_held :: "board \<Rightarrow> Player \<Rightarrow> nat \<times> nat \<times> nat \<Rightarrow> bool" where
  "line_held board p trio =
     (case trio of (a, b, c) \<Rightarrow> board ! a = Some p \<and> board ! b = Some p \<and> board ! c = Some p)"

definition has_line :: "board \<Rightarrow> Player \<Rightarrow> bool" where
  "has_line board p = list_ex (line_held board p) WINNING_TRIOS"

subsection \<open>Scores\<close>

text \<open>
  A score is a JavaScript number. The code only produces integers and the two infinities
  (\<^verbatim>\<open>Number.NEGATIVE_INFINITY\<close>, and \<^verbatim>\<open>Math.max()\<close>, \<^verbatim>\<open>Math.min()\<close> of no
  arguments).
\<close>

datatype num = NegInf | Fin int | PosInf

fun num_less :: "num \<Rightarrow> num \<Rightarrow> bool" where
  "num_less NegInf NegInf = False"
| "num_less NegInf y = True"
| "num_less (Fin a) (Fin b) = (a < b)"
| "num_less (Fin a) PosInf = True"
| "num_less (Fin a) NegInf = False"
| "num_less PosInf y = False"

definition num_max :: "num \<Rightarrow> num \<Rightarrow> num" where
  "num_max a b = (if num_less a b then b else a)"

definition num_min :: "num \<Rightarrow> num \<Rightarrow> num" where
  "num_min a b = (if num_less b a then b else a)"

text \<open>
  \<^verbatim>\<open>Math.max(...scores)\<close> and \<^verbatim>\<open>Math.min(...scores)\<close>: of an empty list they are
  \<open>-Infinity\<close> and \<open>+Infinity\<close>.
\<close>

definition Math_max :: "num list \<Rightarrow> num" where
  "Math_max scores = foldl num_max NegInf scores"

definition Math_min :: "num list \<Rightarrow> num" where
  "Math_min scores = foldl num_min PosInf scores"

subsection \<open>The minimax search\<close>

text \<open>
  \<^verbatim>\<open>minimax\<close> mutates the caller's array in place, so the model threads the board and
  returns it beside the score. \<open>minimax_loop i\<close> is the \<^verbatim>\<open>for\<close> loop from index
  \<open>i\<close> on, with the scores pushed so far. The writes \<^verbatim>\<open>board[i] = current\<close> and
  \<^verbatim>\<open>board[i] = null\<close> are guarded by \<^verbatim>\<open>i < board.length\<close>, so they never extend
  the array.
\<close>

function minimax :: "board \<Rightarrow> int \<Rightarrow> bool \<Rightarrow> Player \<Rightarrow> Player \<Rightarrow> num \<times> board"
  and minimax_loop ::
    "nat \<Rightarrow> board \<Rightarrow> num list \<Rightarrow> int \<Rightarrow> bool \<Rightarrow> Player \<Rightarrow> Player \<Rightarrow> num list \<times> board"
where
  "minimax board depth isMaximising ai human =
     (if winner (evaluateWinner board) = Some ai then (Fin (10 - depth), board)
      else if winner (evaluateWinner board) = Some human then (Fin (depth - 10), board)
      else if every_Boolean board then (Fin 0, board)
      else (case minimax_loop 0 board [] depth isMaximising ai human of
              (scores, board') \<Rightarrow>
                (if isMaximising then Math_max scores else Math_min scores, board')))"
| "minimax_loop i board scores depth isMaximising ai human =
     (if i < length board then
        (if board ! i \<noteq> None
         then minimax_loop (i + 1) board scores depth isMaximising ai human
         else (case minimax (board[i := Some (if isMaximising then ai else human)])
                      (depth + 1) (\<not> isMaximising) ai human of
                 (score, board') \<Rightarrow>
                   minimax_loop (i + 1) (board'[i := None]) (scores @ [score])
                     depth isMaximising ai human))
      else (scores, board))"
  by pat_completeness auto

text \<open>
  Termination of the search. The loop continues on the array handed back by the recursive
  call, so the proof first needs that a terminating call hands its array back unchanged;
  then every recursive call is on a board with one empty cell fewer, and the loop counts
  its index up to the length.
\<close>

definition empties :: "board \<Rightarrow> nat" where
  "empties board = length (filter (\<lambda>cell. cell = None) board)"

lemma empties_update_Some:
  "i < length board \<Longrightarrow> board ! i = None \<Longrightarrow> empties (board[i := Some p]) < empties board"
proof (induction board arbitrary: i)
  case Nil
  then show ?case by simp
next
  case (Cons c cs)
  then show ?case by (cases i) (auto simp: empties_def)
qed

lemma minimax_board_partial:
  "minimax_minimax_loop_dom (Inl (board, depth, m, ai, human)) \<Longrightarrow>
     snd (minimax board depth m ai human) = board"
  "minimax_minimax_loop_dom (Inr (i, board, scores, depth, m, ai, human)) \<Longrightarrow>
     snd (minimax_loop i board scores depth m ai human) = board"
proof (induction board depth m ai human and i board scores depth m ai human
    rule: minimax_minimax_loop.pinduct)
  case (1 board depth isMaximising ai human)
  then show ?case
    by (auto simp add: minimax.psimps split: prod.splits)
next
  case (2 i board scores depth isMaximising ai human)
  show ?case
  proof (cases "i < length board")
    case False
    with 2(1) show ?thesis by (simp add: minimax_loop.psimps)
  next
    case inr: True
    show ?thesis
    proof (cases "board ! i = None")
      case False
      with inr 2(1) 2(2) show ?thesis by (simp add: minimax_loop.psimps)
    next
      case True
      let ?b = "board[i := Some (if isMaximising then ai else human)]"
      obtain x y where xy: "minimax ?b (depth + 1) (\<not> isMaximising) ai human = (x, y)"
        by (cases "minimax ?b (depth + 1) (\<not> isMaximising) ai human")
      from 2(3) inr True xy have y: "y = ?b" by simp
      have "y[i := None] = board"
        using y True inr by (simp add: list_update_same_conv)
      moreover have "snd (minimax_loop (i + 1) (y[i := None]) (scores @ [x])
                       depth isMaximising ai human) = y[i := None]"
        using 2(4) [of x y] inr True xy by simp
      ultimately show ?thesis
        using 2(1) inr True xy by (simp add: minimax_loop.psimps)
    qed
  qed
qed

lemma minimax_total: "All minimax_minimax_loop_dom"
proof (relation "inv_image (less_than <*lex*> less_than)
    (\<lambda>x. case x of
        Inl (board, depth, m, ai, human) \<Rightarrow> (empties board, length board + 1)
      | Inr (i, board, scores, depth, m, ai, human) \<Rightarrow> (empties board, length board - i))",
    goal_cases)
  case 1
  show ?case by (intro wf_inv_image wf_lex_prod wf_less_than)
next
  case (2 board depth isMaximising ai human)
  then show ?case by simp
next
  case (3 i board scores depth isMaximising ai human)
  then show ?case by auto
next
  case (4 i board scores depth isMaximising ai human)
  then show ?case by (simp add: empties_update_Some)
next
  case (5 i board scores depth isMaximising ai human x y)
  from 5(4) 5(3) have "y = board[i := Some (if isMaximising then ai else human)]"
    using minimax_board_partial(1)
      [of "board[i := Some (if isMaximising then ai else human)]"
          "depth + 1" "\<not> isMaximising" ai human]
    by (metis snd_conv)
  then have "y[i := None] = board"
    using 5(1) 5(2) by (simp add: list_update_same_conv)
  then show ?case using 5(1) by auto
qed

termination minimax
  by (rule minimax_total)

declare minimax.simps [simp del] minimax_loop.simps [simp del]

subsection \<open>The move selector\<close>

text \<open>
  \<^verbatim>\<open>board.map((cell, index) => (cell === null ? index : null)).filter((cell) => cell !== null)\<close>,
  cast to \<^verbatim>\<open>number[]\<close>.
\<close>

definition available :: "board \<Rightarrow> nat list" where
  "available board =
     map the (filter (\<lambda>cell. cell \<noteq> None)
       (map (\<lambda>(index, cell). if cell = None then Some index else None) (enumerate 0 board)))"

text \<open>
  The two loops of \<^verbatim>\<open>pickBestMove\<close> that look for an immediate win and for an immediate
  block are the same code with \<^verbatim>\<open>ai\<close> and with \<^verbatim>\<open>human\<close> as the mark: place the mark,
  ask \<^verbatim>\<open>evaluateWinner\<close>, clear the cell, and return the move at the first success. The
  moves are the elements of \<^verbatim>\<open>available\<close>, indices inside the array.
\<close>

fun immediate_loop :: "nat list \<Rightarrow> board \<Rightarrow> Player \<Rightarrow> nat option \<times> board" where
  "immediate_loop [] board mark = (None, board)"
| "immediate_loop (move # moves) board mark =
     (if winner (evaluateWinner (board[move := Some mark])) = Some mark
      then (Some move, board[move := Some mark, move := None])
      else immediate_loop moves (board[move := Some mark, move := None]) mark)"

text \<open>
  The test of these two loops, as a predicate of the move: with the mark placed at the
  move, \<^verbatim>\<open>evaluateWinner\<close> reports the mark as the winner.
\<close>

definition wins_at :: "board \<Rightarrow> Player \<Rightarrow> nat \<Rightarrow> bool" where
  "wins_at board mark move = (winner (evaluateWinner (board[move := Some mark])) = Some mark)"

text \<open>
  The table \<^verbatim>\<open>mistakes\<close>. The draws of \<^verbatim>\<open>Math.random()\<close> are parameters of the model,
  rational numbers (every double is one); a draw of the source lies in \<open>[0, 1)\<close>. The
  entries are the values of the doubles written \<^verbatim>\<open>0.55\<close>, \<^verbatim>\<open>0.3\<close> and \<^verbatim>\<open>0\<close>, so
  that \<open><\<close> on them is the comparison of the source.
\<close>

definition mistakes :: "Difficulty \<Rightarrow> rat" where
  "mistakes difficulty =
     (case difficulty of
        Relaxed \<Rightarrow> 2476979795053773 / 4503599627370496
      | Balanced \<Rightarrow> 5404319552844595 / 18014398509481984
      | Perfect \<Rightarrow> 0)"

text \<open>
  The value returned by \<^verbatim>\<open>pickBestMove\<close>: \<^verbatim>\<open>null\<close>, an index, or \<^verbatim>\<open>undefined\<close>
  when \<^verbatim>\<open>available[k]\<close> is read outside the list.
\<close>

datatype pick = Null | Undefined | Move nat

definition at_index :: "nat list \<Rightarrow> int \<Rightarrow> pick" where
  "at_index xs k = (if 0 \<le> k \<and> k < int (length xs) then Move (xs ! nat k) else Undefined)"

text \<open>
  The multiplication \<^verbatim>\<open>Math.random() * available.length\<close> is a multiplication of doubles:
  the exact product rounded to the nearest IEEE 754 binary64 number, ties to the even
  significand. \<open>binade x\<close> is the exponent of the binade of \<open>x\<close>, the largest \<open>e\<close> from
  \<open>emin\<close> to \<open>emax\<close> with \<open>2\<^sup>e \<le> x\<close>, and \<open>emin\<close> for the subnormal numbers below
  \<open>2\<^bsup>emin\<^esup>\<close>; the doubles of a binade are the multiples of \<open>2\<^bsup>e - 52\<^esup>\<close>.
  \<open>round_double\<close> is the rounding, for numbers below the overflow threshold
  \<open>2\<^bsup>1024\<^esup>\<close>, which is all the code multiplies; a number is a double exactly when
  \<open>round_double\<close> returns it unchanged.
\<close>

definition emin :: int where
  "emin = - 1022"

definition emax :: int where
  "emax = 1023"

definition binade :: "rat \<Rightarrow> int" where
  "binade x = last (emin # filter (\<lambda>e. 2 powi e \<le> x) [emin..emax])"

definition round_half_even :: "rat \<Rightarrow> int" where
  "round_half_even q =
     (let f = \<lfloor>q\<rfloor>; r = q - of_int f
      in if r < 1 / 2 then f else if 1 / 2 < r then f + 1 else if even f then f else f + 1)"

definition round_double :: "rat \<Rightarrow> rat" where
  "round_double x =
     (let ulp = 2 powi (binade \<bar>x\<bar> - 52)
      in of_int (round_half_even (x / ulp)) * ulp)"

text \<open>
  The last loop of \<^verbatim>\<open>pickBestMove\<close>, with \<^verbatim>\<open>bestScore\<close> and \<^verbatim>\<open>chosenMove\<close> as
  accumulators.
\<close>

fun search_loop ::
  "nat list \<Rightarrow> board \<Rightarrow> num \<Rightarrow> nat \<Rightarrow> Player \<Rightarrow> Player \<Rightarrow> nat \<times> board" where
  "search_loop [] board bestScore chosenMove ai human = (chosenMove, board)"
| "search_loop (move # moves) board bestScore chosenMove ai human =
     (case minimax (board[move := Some ai]) 0 False ai human of
        (score, board') \<Rightarrow>
          (if num_less bestScore score
           then search_loop moves (board'[move := None]) score move ai human
           else search_loop moves (board'[move := None]) bestScore chosenMove ai human))"

text \<open>
  \<^verbatim>\<open>pickBestMove\<close>, returning the array beside the result. \<open>draw1\<close> is the draw compared
  with the mistake probability and \<open>draw2\<close> the draw that picks the random cell: the
  product \<^verbatim>\<open>Math.random() * available.length\<close> is rounded to a double, and
  \<^verbatim>\<open>Math.floor\<close> of that double is the index read from \<^verbatim>\<open>available\<close>.
\<close>

definition pickBestMove ::
  "board \<Rightarrow> Player \<Rightarrow> Player \<Rightarrow> Difficulty \<Rightarrow> rat \<Rightarrow> rat \<Rightarrow> pick \<times> board" where
  "pickBestMove board ai human difficulty draw1 draw2 =
     (let avail = available board in
      if avail = [] then (Null, board)
      else
        (case immediate_loop avail board ai of
           (Some move, board1) \<Rightarrow> (Move move, board1)
         | (None, board1) \<Rightarrow>
             (case immediate_loop avail board1 human of
                (Some move, board2) \<Rightarrow> (Move move, board2)
              | (None, board2) \<Rightarrow>
                  if draw1 < mistakes difficulty
                  then (at_index avail \<lfloor>round_double (draw2 * of_nat (length avail))\<rfloor>,
                        board2)
                  else (case search_loop avail board2 NegInf (hd avail) ai human of
                          (chosenMove, board3) \<Rightarrow> (Move chosenMove, board3)))))"

subsection \<open>The round: \<^verbatim>\<open>makeMove\<close> and the two players\<close>

text \<open>
  The React state of a round. \<^verbatim>\<open>type Winner = Player | "tie" | null\<close>: \<open>None\<close> is
  \<^verbatim>\<open>null\<close>.
\<close>

datatype Winner = Won Player | Tie

record session =
  boardState :: board
  currentPlayer :: Player
  winnerState :: "Winner option"
  highlightLine :: "(nat \<times> nat \<times> nat) option"
  scoreTally :: "Winner \<Rightarrow> nat"

definition startFreshBoard :: "Player \<Rightarrow> session \<Rightarrow> session" where
  "startFreshBoard starter s =
     s\<lparr>boardState := emptyBoard, winnerState := None, highlightLine := None,
       currentPlayer := starter\<rparr>"

definition applyWin :: "Winner option \<Rightarrow> (nat \<times> nat \<times> nat) option \<Rightarrow> session \<Rightarrow> session" where
  "applyWin result trio s =
     (let s1 = s\<lparr>winnerState := result, highlightLine := trio\<rparr> in
      case result of
        Some Tie \<Rightarrow> s1\<lparr>scoreTally := (scoreTally s1)(Tie := scoreTally s1 Tie + 1)\<rparr>
      | None \<Rightarrow> s1
      | Some r \<Rightarrow> s1\<lparr>scoreTally := (scoreTally s1)(r := scoreTally s1 r + 1)\<rparr>)"

text \<open>
  \<^verbatim>\<open>makeMove\<close>: the state after its updates are applied. The callers pass an index of
  the grid, below 9.
\<close>

definition makeMove :: "nat \<Rightarrow> Player \<Rightarrow> session \<Rightarrow> session" where
  "makeMove index player s =
     (if winnerState s \<noteq> None \<or> truthy (read (boardState s) index) then s
      else
        (let next = (boardState s)[index := Some player];
             outcome = winner (evaluateWinner next);
             trio = line (evaluateWinner next);
             boardFilled = every_Boolean next;
             s1 = s\<lparr>boardState := next\<rparr>
         in if outcome \<noteq> None \<or> boardFilled
            then applyWin (case outcome of Some p \<Rightarrow> Some (Won p) | None \<Rightarrow> Some Tie)
                   (if outcome \<noteq> None then trio else None) s1
            else s1\<lparr>currentPlayer := nextPlayer player\<rparr>))"

text \<open>
  \<^verbatim>\<open>handleSquareClick\<close> in the mode against the automated player, whose opponent holds
  \<open>humanSymbol\<close>.
\<close>

definition handleSquareClick :: "Player \<Rightarrow> nat \<Rightarrow> session \<Rightarrow> session" where
  "handleSquareClick humanSymbol index s =
     (if winnerState s \<noteq> None then s
      else if truthy (read (boardState s) index) then s
      else if currentPlayer s \<noteq> humanSymbol then s
      else makeMove index (currentPlayer s) s)"

text \<open>
  The states of a round against the automated player at difficulty \<^verbatim>\<open>"perfect"\<close>: the
  round starts from \<^verbatim>\<open>startFreshBoard\<close> with either starter; the opponent clicks any
  square; and when it is the automated player's turn and nobody has won, the effect calls
  \<^verbatim>\<open>pickBestMove\<close> on a copy of the board with \<^verbatim>\<open>botSymbol\<close>, the mark that is not
  \<open>humanSymbol\<close>, and plays the move when it is not \<^verbatim>\<open>null\<close>.
\<close>

inductive round_perfect :: "Player \<Rightarrow> session \<Rightarrow> bool" for humanSymbol :: Player where
  fresh: "round_perfect humanSymbol (startFreshBoard starter s)"
| click: "round_perfect humanSymbol s \<Longrightarrow> index < 9 \<Longrightarrow>
          round_perfect humanSymbol (handleSquareClick humanSymbol index s)"
| bot: "round_perfect humanSymbol s \<Longrightarrow> winnerState s = None \<Longrightarrow>
        currentPlayer s = nextPlayer humanSymbol \<Longrightarrow>
        0 \<le> draw1 \<Longrightarrow> draw1 < 1 \<Longrightarrow> 0 \<le> draw2 \<Longrightarrow> draw2 < 1 \<Longrightarrow>
        fst (pickBestMove (boardState s) (nextPlayer humanSymbol) humanSymbol Perfect draw1 draw2)
          = Move move \<Longrightarrow>
        round_perfect humanSymbol (makeMove move (nextPlayer humanSymbol) s)"

section \<open>Facts about the search\<close>

text \<open>The list \<^verbatim>\<open>available\<close> holds the indices of the empty cells, ascending.\<close>

lemma available_eq: "available board = filter (\<lambda>i. board ! i = None) [0..<length board]"
proof -
  have "map the (filter (\<lambda>cell. cell \<noteq> None)
       (map (\<lambda>(index, cell). if cell = None then Some index else None) (enumerate n board)))
     = map (\<lambda>i. i + n) (filter (\<lambda>i. board ! i = None) [0..<length board])" for n
  proof (induction board arbitrary: n)
    case Nil
    then show ?case by simp
  next
    case (Cons c cs)
    have "[0..<length (c # cs)] = 0 # map Suc [0..<length cs]"
      by (simp add: upt_conv_Cons map_Suc_upt del: upt_Suc)
    then show ?case using Cons [of "Suc n"]
      by (simp add: filter_map comp_def del: upt_Suc)
  qed
  from this [of 0] show ?thesis by (simp add: available_def)
qed

text \<open>Every call of the search hands the array back as it received it.\<close>

lemma minimax_board [simp]: "snd (minimax board depth m ai human) = board"
  and minimax_loop_board [simp]: "snd (minimax_loop i board scores depth m ai human) = board"
  using minimax_total by (simp_all add: minimax_board_partial)

text \<open>The loop pushes one score for every empty cell from its index on.\<close>

lemma minimax_loop_eq:
  "minimax_loop i board scores depth m ai human =
     (scores @ map (\<lambda>j. fst (minimax (board[j := Some (if m then ai else human)]) (depth + 1) (\<not> m) ai human))
                (filter (\<lambda>j. board ! j = None) [i..<length board]), board)"
proof (induction "length board - i" arbitrary: i scores)
  case 0
  then show ?case by (simp add: minimax_loop.simps [of i])
next
  case (Suc n)
  define cur where "cur = (if m then ai else human)"
  define sc where "sc = (\<lambda>j. fst (minimax (board[j := Some cur]) (depth + 1) (\<not> m) ai human))"
  from Suc have i: "i < length board" by simp
  have upt: "[i..<length board] = i # [i + 1..<length board]"
    using i by (simp add: upt_conv_Cons)
  have IH: "minimax_loop (i + 1) board scs depth m ai human =
     (scs @ map sc (filter (\<lambda>j. board ! j = None) [i + 1..<length board]), board)" for scs
    using Suc(1) [of "i + 1"] Suc(2) by (simp add: sc_def cur_def)
  have "minimax_loop i board scores depth m ai human =
     (scores @ map sc (filter (\<lambda>j. board ! j = None) [i..<length board]), board)"
  proof (cases "board ! i = None")
    case False
    then have "minimax_loop i board scores depth m ai human =
        minimax_loop (i + 1) board scores depth m ai human"
      using i by (subst minimax_loop.simps) simp
    then show ?thesis using False IH upt by simp
  next
    case True
    have restore: "board[i := Some cur, i := None] = board"
      using True i by (simp add: list_update_same_conv)
    have "minimax_loop i board scores depth m ai human =
        (case minimax (board[i := Some cur]) (depth + 1) (\<not> m) ai human of
           (score, board') \<Rightarrow>
              minimax_loop (i + 1) (board'[i := None]) (scores @ [score]) depth m ai human)"
      using i True by (subst minimax_loop.simps) (simp add: cur_def)
    also have "\<dots> = minimax_loop (i + 1) (board[i := Some cur, i := None]) (scores @ [sc i])
         depth m ai human"
      by (simp add: case_prod_unfold sc_def)
    also have "\<dots> = (scores @ map sc (filter (\<lambda>j. board ! j = None) [i..<length board]), board)"
      unfolding restore using IH True upt by simp
    finally show ?thesis .
  qed
  then show ?case by (simp add: sc_def cur_def)
qed

lemma minimax_unfold:
  "fst (minimax board depth m ai human) =
     (if winner (evaluateWinner board) = Some ai then Fin (10 - depth)
      else if winner (evaluateWinner board) = Some human then Fin (depth - 10)
      else if every_Boolean board then Fin 0
      else (if m then Math_max else Math_min)
             (map (\<lambda>j. fst (minimax (board[j := Some (if m then ai else human)])
                                (depth + 1) (\<not> m) ai human))
                  (available board)))"
  by (subst minimax.simps) (simp add: minimax_loop_eq available_eq)

section \<open>Facts about the win evaluator\<close>

lemma truthy_Some [simp]: "truthy (Some c) = (c \<noteq> None)"
  by (cases c) auto

lemma trios_in_grid:
  "(a, b, c) \<in> set WINNING_TRIOS \<Longrightarrow> a < 9 \<and> b < 9 \<and> c < 9"
  by (auto simp: WINNING_TRIOS_def)

lemma trio_complete_iff:
  assumes "length board = 9" and "trio \<in> set WINNING_TRIOS"
  shows "trio_complete board trio \<longleftrightarrow> (\<exists>p. line_held board p trio)"
proof -
  obtain a b c where t: "trio = (a, b, c)" by (cases trio)
  with assms trios_in_grid have "a < length board" "b < length board" "c < length board"
    by auto
  then show ?thesis by (auto simp: t read_def line_held_def)
qed

lemma evaluateWinner_loop_first:
  assumes "k < length trios" and "trio_complete board (trios ! k)"
    and "\<forall>j<k. \<not> trio_complete board (trios ! j)"
  shows "evaluateWinner_loop trios board =
           \<lparr>winner = board ! fst (trios ! k), line = Some (trios ! k)\<rparr>"
  using assms
proof (induction trios arbitrary: k)
  case Nil
  then show ?case by simp
next
  case (Cons t ts)
  show ?case
  proof (cases k)
    case 0
    with Cons.prems show ?thesis by simp
  next
    case (Suc n)
    with Cons.prems have "\<not> trio_complete board t" by auto
    moreover have "evaluateWinner_loop ts board =
        \<lparr>winner = board ! fst (ts ! n), line = Some (ts ! n)\<rparr>"
      using Cons.prems Suc by (intro Cons.IH) auto
    ultimately show ?thesis using Suc by simp
  qed
qed

lemma evaluateWinner_loop_none:
  "(\<forall>t\<in>set trios. \<not> trio_complete board t) \<Longrightarrow>
     evaluateWinner_loop trios board = \<lparr>winner = None, line = None\<rparr>"
  by (induction trios) auto

lemma evaluateWinner_loop_cases:
  "(evaluateWinner_loop trios board = \<lparr>winner = None, line = None\<rparr> \<and>
      (\<forall>t\<in>set trios. \<not> trio_complete board t)) \<or>
   (\<exists>k<length trios. trio_complete board (trios ! k) \<and>
      (\<forall>j<k. \<not> trio_complete board (trios ! j)) \<and>
      evaluateWinner_loop trios board =
        \<lparr>winner = board ! fst (trios ! k), line = Some (trios ! k)\<rparr>)"
proof (cases "\<forall>t\<in>set trios. \<not> trio_complete board t")
  case True
  then show ?thesis by (simp add: evaluateWinner_loop_none)
next
  case False
  then obtain t where "t \<in> set trios" "trio_complete board t" by blast
  then have ex: "\<exists>k. k < length trios \<and> trio_complete board (trios ! k)"
    by (metis in_set_conv_nth)
  define k where "k = (LEAST k. k < length trios \<and> trio_complete board (trios ! k))"
  have k: "k < length trios \<and> trio_complete board (trios ! k)"
    unfolding k_def using ex by (rule LeastI_ex)
  have least: "\<forall>j<k. \<not> trio_complete board (trios ! j)"
  proof (intro allI impI notI)
    fix j assume "j < k" and "trio_complete board (trios ! j)"
    then have "j < length trios \<and> trio_complete board (trios ! j)" using k by simp
    then have "k \<le> j" unfolding k_def by (rule Least_le)
    with \<open>j < k\<close> show False by simp
  qed
  with k evaluateWinner_loop_first [of k trios board] show ?thesis by blast
qed

lemma winner_Some_has_line:
  assumes "length board = 9" and "winner (evaluateWinner board) = Some p"
  shows "has_line board p"
proof -
  from evaluateWinner_loop_cases [of WINNING_TRIOS board] assms(2)
  obtain k where k: "k < length WINNING_TRIOS" "trio_complete board (WINNING_TRIOS ! k)"
    and w: "board ! fst (WINNING_TRIOS ! k) = Some p"
    by (auto simp: evaluateWinner_def)
  have mem: "WINNING_TRIOS ! k \<in> set WINNING_TRIOS" using k(1) by simp
  with trio_complete_iff [OF assms(1)] k(2) obtain q where q: "line_held board q (WINNING_TRIOS ! k)"
    by blast
  with w have "q = p" by (cases "WINNING_TRIOS ! k") (auto simp: line_held_def)
  with q mem show ?thesis by (auto simp: has_line_def list_ex_iff)
qed

lemma winner_None_iff:
  assumes "length board = 9"
  shows "winner (evaluateWinner board) = None \<longleftrightarrow> (\<forall>p. \<not> has_line board p)"
proof
  assume none: "winner (evaluateWinner board) = None"
  show "\<forall>p. \<not> has_line board p"
  proof (intro allI notI)
    fix p assume "has_line board p"
    then obtain t where t: "t \<in> set WINNING_TRIOS" "line_held board p t"
      by (auto simp: has_line_def list_ex_iff)
    then have tc: "trio_complete board t" using trio_complete_iff [OF assms] by blast
    from evaluateWinner_loop_cases [of WINNING_TRIOS board] t(1) tc
    obtain k where k: "k < length WINNING_TRIOS" "trio_complete board (WINNING_TRIOS ! k)"
      and e: "evaluateWinner board = \<lparr>winner = board ! fst (WINNING_TRIOS ! k), line = Some (WINNING_TRIOS ! k)\<rparr>"
      by (auto simp: evaluateWinner_def)
    have "WINNING_TRIOS ! k \<in> set WINNING_TRIOS" using k(1) by simp
    with trio_complete_iff [OF assms] k(2) obtain q where "line_held board q (WINNING_TRIOS ! k)"
      by blast
    then have "board ! fst (WINNING_TRIOS ! k) = Some q"
      by (cases "WINNING_TRIOS ! k") (auto simp: line_held_def)
    with e none show False by simp
  qed
next
  assume no: "\<forall>p. \<not> has_line board p"
  have "\<forall>t\<in>set WINNING_TRIOS. \<not> trio_complete board t"
  proof
    fix t assume t: "t \<in> set WINNING_TRIOS"
    show "\<not> trio_complete board t"
    proof
      assume "trio_complete board t"
      with trio_complete_iff [OF assms t] obtain p where "line_held board p t" by blast
      with t no show False by (auto simp: has_line_def list_ex_iff)
    qed
  qed
  then show "winner (evaluateWinner board) = None"
    by (simp add: evaluateWinner_def evaluateWinner_loop_none)
qed

lemma has_line_winner:
  assumes "length board = 9" and "has_line board p" and "\<forall>q. q \<noteq> p \<longrightarrow> \<not> has_line board q"
  shows "winner (evaluateWinner board) = Some p"
proof (cases "winner (evaluateWinner board)")
  case None
  with winner_None_iff [OF assms(1)] assms(2) show ?thesis by simp
next
  case (Some q)
  with winner_Some_has_line [OF assms(1)] have "has_line board q" by simp
  with assms(3) have "q = p" by blast
  with Some show ?thesis by simp
qed


lemma emptyBoard_cells:
  "emptyBoard = [None, None, None, None, None, None, None, None, None]"
  by (simp add: emptyBoard_def eval_nat_numeral)

section \<open>Facts about the move selector\<close>

lemma immediate_loop_eq:
  assumes "\<forall>move\<in>set moves. move < length board \<and> board ! move = None"
  shows "immediate_loop moves board mark =
           (find (\<lambda>move. winner (evaluateWinner (board[move := Some mark])) = Some mark) moves,
            board)"
  using assms
proof (induction moves)
  case Nil
  then show ?case by simp
next
  case (Cons move moves)
  then have "board[move := Some mark, move := None] = board"
    by (simp add: list_update_same_conv)
  with Cons show ?case by simp
qed

lemma available_empty: "move \<in> set (available board) \<longleftrightarrow> move < length board \<and> board ! move = None"
  by (auto simp: available_eq)

lemma search_loop_board:
  assumes "\<forall>move\<in>set moves. move < length board \<and> board ! move = None"
  shows "snd (search_loop moves board bestScore chosenMove ai human) = board"
  using assms
proof (induction moves arbitrary: bestScore chosenMove)
  case Nil
  then show ?case by simp
next
  case (Cons move moves)
  have r: "board[move := None] = board"
    using Cons.prems by (simp add: list_update_same_conv)
  show ?case
    using Cons.IH Cons.prems by (simp add: case_prod_unfold r)
qed

lemma pickBestMove_board: "snd (pickBestMove board ai human difficulty draw1 draw2) = board"
proof -
  have av: "\<forall>move\<in>set (available board). move < length board \<and> board ! move = None"
    by (simp add: available_empty)
  show ?thesis
    using search_loop_board [OF av, of NegInf "hd (available board)" ai human]
    by (auto simp add: pickBestMove_def Let_def immediate_loop_eq [OF av]
        split: option.splits prod.splits)
qed

lemma find_filter: "find P (filter Q xs) = find (\<lambda>x. Q x \<and> P x) xs"
  by (induction xs) auto

lemma find_available:
  "find P (available board) = Some m \<longleftrightarrow>
     m < length board \<and> board ! m = None \<and> P m \<and> (\<forall>j<m. board ! j = None \<longrightarrow> \<not> P j)"
proof -
  have "find P (available board) = find (\<lambda>i. board ! i = None \<and> P i) [0..<length board]"
    by (simp add: available_eq find_filter)
  also have "\<dots> = Some m \<longleftrightarrow>
     m < length board \<and> board ! m = None \<and> P m \<and> (\<forall>j<m. board ! j = None \<longrightarrow> \<not> P j)"
    by (auto simp: find_Some_iff)
  finally show ?thesis .
qed

lemma find_available_None:
  "find P (available board) = None \<longleftrightarrow> (\<forall>j<length board. board ! j = None \<longrightarrow> \<not> P j)"
  by (auto simp: find_None_iff available_empty)

lemma pickBestMove_result:
  "fst (pickBestMove board ai human difficulty draw1 draw2) =
     (if available board = [] then Null
      else case find (wins_at board ai) (available board) of
        Some move \<Rightarrow> Move move
      | None \<Rightarrow>
          (case find (wins_at board human) (available board) of
             Some move \<Rightarrow> Move move
           | None \<Rightarrow>
               if draw1 < mistakes difficulty
               then at_index (available board)
                      \<lfloor>round_double (draw2 * of_nat (length (available board)))\<rfloor>
               else Move (fst (search_loop (available board) board NegInf (hd (available board))
                                 ai human))))"
proof -
  have av: "\<forall>move\<in>set (available board). move < length board \<and> board ! move = None"
    by (simp add: available_empty)
  have w: "(\<lambda>move. winner (evaluateWinner (board[move := Some mark])) = Some mark) = wins_at board mark"
    for mark by (simp add: wins_at_def fun_eq_iff)
  show ?thesis
    by (simp add: pickBestMove_def Let_def immediate_loop_eq [OF av] w case_prod_unfold
        split: option.splits)
qed

section \<open>Facts about scores\<close>

lemma num_less_irrefl [simp]: "\<not> num_less a a"
  by (cases a) auto

lemma num_less_trans: "num_less a b \<Longrightarrow> num_less b c \<Longrightarrow> num_less a c"
  by (cases a; cases b; cases c) auto

lemma num_less_max: "num_less c (num_max a b) \<longleftrightarrow> num_less c a \<or> num_less c b"
  by (cases a; cases b; cases c) (auto simp: num_max_def)

lemma num_less_min: "num_less c (num_min a b) \<longleftrightarrow> num_less c a \<and> num_less c b"
  by (cases a; cases b; cases c) (auto simp: num_min_def)

lemma num_less_foldl_max:
  "num_less c (foldl num_max a xs) \<longleftrightarrow> num_less c a \<or> (\<exists>x\<in>set xs. num_less c x)"
  by (induction xs arbitrary: a) (auto simp: num_less_max)

lemma num_less_foldl_min:
  "num_less c (foldl num_min a xs) \<longleftrightarrow> num_less c a \<and> (\<forall>x\<in>set xs. num_less c x)"
  by (induction xs arbitrary: a) (auto simp: num_less_min)

lemma foldl_max_mem: "foldl num_max a xs \<in> insert a (set xs)"
  by (induction xs arbitrary: a) (auto simp: num_max_def)

lemma foldl_min_mem: "foldl num_min a xs \<in> insert a (set xs)"
  by (induction xs arbitrary: a) (auto simp: num_min_def)

lemma foldl_max_upper: "x \<in> insert a (set xs) \<Longrightarrow> \<not> num_less (foldl num_max a xs) x"
proof (induction xs arbitrary: a x)
  case Nil
  then show ?case by simp
next
  case (Cons y ys)
  have a: "\<not> num_less (num_max a y) a" and y: "\<not> num_less (num_max a y) y"
    by (cases a; cases y; auto simp: num_max_def)+
  have mono: "\<not> num_less (foldl num_max (num_max a y) ys) z" if "\<not> num_less (num_max a y) z" for z
  proof
    assume "num_less (foldl num_max (num_max a y) ys) z"
    moreover have "\<not> num_less (foldl num_max (num_max a y) ys) (num_max a y)"
      using Cons.IH [of "num_max a y" "num_max a y"] by simp
    ultimately show False using that
      by (cases "foldl num_max (num_max a y) ys"; cases z; cases "num_max a y") auto
  qed
  from Cons.prems consider "x = a" | "x = y" | "x \<in> set ys" by auto
  then show ?case
  proof cases
    case 1
    with mono [OF a] show ?thesis by simp
  next
    case 2
    with mono [OF y] show ?thesis by simp
  next
    case 3
    then show ?thesis using Cons.IH [of x "num_max a y"] by simp
  qed
qed

lemma foldl_min_lower: "x \<in> insert a (set xs) \<Longrightarrow> \<not> num_less x (foldl num_min a xs)"
proof (induction xs arbitrary: a x)
  case Nil
  then show ?case by simp
next
  case (Cons y ys)
  have a: "\<not> num_less a (num_min a y)" and y: "\<not> num_less y (num_min a y)"
    by (cases a; cases y; auto simp: num_min_def)+
  have mono: "\<not> num_less z (foldl num_min (num_min a y) ys)" if "\<not> num_less z (num_min a y)" for z
  proof
    assume "num_less z (foldl num_min (num_min a y) ys)"
    moreover have "\<not> num_less (num_min a y) (foldl num_min (num_min a y) ys)"
      using Cons.IH [of "num_min a y" "num_min a y"] by simp
    ultimately show False using that
      by (cases "foldl num_min (num_min a y) ys"; cases z; cases "num_min a y") auto
  qed
  from Cons.prems consider "x = a" | "x = y" | "x \<in> set ys" by auto
  then show ?case
  proof cases
    case 1
    with mono [OF a] show ?thesis by simp
  next
    case 2
    with mono [OF y] show ?thesis by simp
  next
    case 3
    then show ?thesis using Cons.IH [of x "num_min a y"] by simp
  qed
qed

text \<open>Of a non-empty list of integers, \<open>Math_max\<close> and \<open>Math_min\<close> are elements.\<close>

lemma Math_max_mem:
  assumes "scores \<noteq> []" and "\<forall>s\<in>set scores. \<exists>k. s = Fin k"
  shows "Math_max scores \<in> set scores"
proof -
  obtain x xs where sc: "scores = x # xs" using assms(1) by (cases scores) auto
  with assms(2) obtain k where "x = Fin k" by auto
  then have "num_max NegInf x = x" by (simp add: num_max_def)
  then have "Math_max scores = foldl num_max x xs" by (simp add: Math_max_def sc)
  with foldl_max_mem [of x xs] show ?thesis by (simp add: sc)
qed

lemma Math_min_mem:
  assumes "scores \<noteq> []" and "\<forall>s\<in>set scores. \<exists>k. s = Fin k"
  shows "Math_min scores \<in> set scores"
proof -
  obtain x xs where sc: "scores = x # xs" using assms(1) by (cases scores) auto
  with assms(2) obtain k where "x = Fin k" by auto
  then have "num_min PosInf x = x" by (simp add: num_min_def)
  then have "Math_min scores = foldl num_min x xs" by (simp add: Math_min_def sc)
  with foldl_min_mem [of x xs] show ?thesis by (simp add: sc)
qed

lemma Math_max_upper: "s \<in> set scores \<Longrightarrow> \<not> num_less (Math_max scores) s"
  by (simp add: Math_max_def foldl_max_upper)

lemma Math_min_lower: "s \<in> set scores \<Longrightarrow> \<not> num_less s (Math_min scores)"
  by (simp add: Math_min_def foldl_min_lower)

section \<open>Induction over boards\<close>

lemma board_induct [case_names fill]:
  assumes "\<And>board. (\<And>j p. j < length board \<Longrightarrow> board ! j = None \<Longrightarrow> P (board[j := Some p])) \<Longrightarrow> P board"
  shows "P (board :: board)"
proof (induction board rule: measure_induct_rule [of empties])
  case (less board)
  show ?case
    by (rule assms) (simp add: less empties_update_Some)
qed

lemma not_every_Boolean_available: "\<not> every_Boolean board \<Longrightarrow> available board \<noteq> []"
proof -
  assume "\<not> every_Boolean board"
  then obtain j where "j < length board" "board ! j = None"
    by (auto simp: every_Boolean_def list_all_length)
  then have "j \<in> set (available board)" by (simp add: available_empty)
  then show ?thesis by auto
qed

lemma minimax_finite: "\<exists>k. fst (minimax board depth m ai human) = Fin k"
proof (induction board arbitrary: depth m rule: board_induct)
  case (fill board)
  let ?scores = "map (\<lambda>j. fst (minimax (board[j := Some (if m then ai else human)])
                                (depth + 1) (\<not> m) ai human)) (available board)"
  have fin: "\<forall>s\<in>set ?scores. \<exists>k. s = Fin k"
    using fill by (auto simp: available_empty)
  show ?case
  proof (cases "winner (evaluateWinner board) = Some ai \<or> winner (evaluateWinner board) = Some human
      \<or> every_Boolean board")
    case True
    then show ?thesis by (subst minimax_unfold) auto
  next
    case False
    then have ne: "?scores \<noteq> []" by (simp add: not_every_Boolean_available)
    have "(if m then Math_max else Math_min) ?scores \<in> set ?scores"
      using Math_max_mem [OF ne fin] Math_min_mem [OF ne fin] by (cases m) simp_all
    with fin obtain k where "(if m then Math_max else Math_min) ?scores = Fin k" by blast
    with False show ?thesis by (subst minimax_unfold) simp
  qed
qed

lemma search_loop_mem:
  "fst (search_loop moves board bestScore chosenMove ai human) \<in> insert chosenMove (set moves)"
proof (induction moves arbitrary: board bestScore chosenMove)
  case Nil
  then show ?case by simp
next
  case (Cons move moves)
  show ?case
    using Cons.IH [of "(snd (minimax (board[move := Some ai]) 0 False ai human))[move := None]"
                      "fst (minimax (board[move := Some ai]) 0 False ai human)" move]
          Cons.IH [of "(snd (minimax (board[move := Some ai]) 0 False ai human))[move := None]"
                      bestScore chosenMove]
    by (auto simp: case_prod_unfold)
qed

lemma available_Nil_iff: "available board = [] \<longleftrightarrow> None \<notin> set board"
proof -
  have "available board = [] \<longleftrightarrow> (\<forall>j<length board. board ! j \<noteq> None)"
    by (auto simp: available_eq filter_empty_conv)
  also have "\<dots> \<longleftrightarrow> None \<notin> set board"
    by (metis in_set_conv_nth)
  finally show ?thesis .
qed

section \<open>Facts about doubles\<close>

lemma emin_emax: "emin \<le> emax" "emin < 0" "0 < emax"
  by (simp_all add: emin_def emax_def)

lemma binade_range: "emin \<le> binade x \<and> binade x \<le> emax"
proof -
  have "binade x \<in> set (emin # filter (\<lambda>e. 2 powi e \<le> x) [emin..emax])"
    unfolding binade_def by (rule last_in_set) simp
  then show ?thesis using emin_emax(1) by auto
qed

lemma mem_not_Nil: "x \<in> set xs \<Longrightarrow> xs \<noteq> []"
  by auto

lemma sorted_last_ge: "sorted xs \<Longrightarrow> x \<in> set xs \<Longrightarrow> x \<le> last (xs :: int list)"
  by (induction xs) auto

lemma binade_max:
  assumes "emin \<le> e" and "e \<le> emax" and "2 powi e \<le> x"
  shows "e \<le> binade x"
proof -
  let ?ys = "filter (\<lambda>e. 2 powi e \<le> x) [emin..emax]"
  have mem: "e \<in> set ?ys" using assms by simp
  then have ne: "?ys \<noteq> []" by (rule mem_not_Nil)
  have "sorted ?ys" by (rule sorted_wrt_filter) simp
  then have "e \<le> last ?ys" using mem by (rule sorted_last_ge)
  then show ?thesis using ne by (simp add: binade_def)
qed

lemma binade_le:
  assumes "2 powi emin \<le> x"
  shows "2 powi binade x \<le> x"
proof -
  let ?ys = "filter (\<lambda>e. 2 powi e \<le> x) [emin..emax]"
  have "emin \<in> set ?ys" using assms emin_emax(1) by simp
  then have ne: "?ys \<noteq> []" by (rule mem_not_Nil)
  then have "last ?ys \<in> set ?ys" by (rule last_in_set)
  then show ?thesis using ne by (simp add: binade_def)
qed

lemma binade_subnormal:
  assumes "x < 2 powi emin"
  shows "binade x = emin"
proof -
  have "\<not> 2 powi e \<le> x" if "e \<in> set [emin..emax]" for e
  proof -
    from that have "(2::rat) powi emin \<le> 2 powi e"
      by (intro power_int_increasing) simp_all
    with assms show ?thesis by simp
  qed
  then have "filter (\<lambda>e. 2 powi e \<le> x) [emin..emax] = []"
    by (simp add: filter_empty_conv)
  then show ?thesis by (simp add: binade_def)
qed

lemma binade_eq:
  assumes "emin \<le> e" and "e \<le> emax" and "2 powi e \<le> x" and "x < 2 powi (e + 1)"
  shows "binade x = e"
proof -
  have lo: "e \<le> binade x" using assms(1-3) by (rule binade_max)
  have "(2::rat) powi emin \<le> 2 powi e"
    using assms(1) by (intro power_int_increasing) simp_all
  with assms(3) have "2 powi emin \<le> x" by simp
  then have "2 powi binade x \<le> x" by (rule binade_le)
  with assms(4) have less: "(2::rat) powi binade x < 2 powi (e + 1)" by simp
  have "binade x < e + 1"
  proof (rule ccontr)
    assume "\<not> binade x < e + 1"
    then have "(2::rat) powi (e + 1) \<le> 2 powi binade x"
      by (intro power_int_increasing) simp_all
    with less show False by simp
  qed
  with lo show ?thesis by simp
qed

text \<open>The power of the exponent is at most the number, or the least normal number.\<close>

lemma binade_le_max: "2 powi binade x \<le> max x (2 powi emin)"
proof (cases "2 powi emin \<le> x")
  case True
  then show ?thesis using binade_le [OF True] by simp
next
  case False
  then have "binade x = emin" by (intro binade_subnormal) simp
  then show ?thesis by simp
qed

lemma round_half_even_of_int [simp]: "round_half_even (of_int m) = m"
  by (simp add: round_half_even_def)

lemma round_half_even_nonneg: "0 \<le> q \<Longrightarrow> 0 \<le> round_half_even q"
  by (auto simp: round_half_even_def Let_def)

lemma round_half_even_below:
  assumes "q < of_int N - 1 / 2"
  shows "round_half_even q < N"
proof -
  let ?f = "\<lfloor>q\<rfloor>"
  have fq: "of_int ?f \<le> q" by simp
  with assms have "(of_int ?f :: rat) < of_int N" by linarith
  then have fN: "?f < N" by simp
  show ?thesis
  proof (cases "?f + 1 < N")
    case True
    then show ?thesis by (auto simp: round_half_even_def Let_def)
  next
    case False
    with fN have "?f = N - 1" by simp
    then have "q - of_int ?f < 1 / 2" using assms by simp
    then show ?thesis using fN by (simp add: round_half_even_def Let_def)
  qed
qed


lemma round_double_nonneg: "0 \<le> x \<Longrightarrow> 0 \<le> round_double x"
  by (simp add: round_double_def Let_def round_half_even_nonneg)

text \<open>No double lies strictly between \<open>1 - 1 / 2 ^ 53\<close> and 1.\<close>

lemma double_below_one:
  assumes "0 \<le> d" and "d < 1" and "round_double d = d"
  shows "d \<le> 1 - 1 / 2 ^ 53"
proof (cases "d < 1 / 2")
  case True
  then show ?thesis by simp
next
  case False
  have "binade d = - 1"
    using False assms(2) by (intro binade_eq) (simp_all add: emin_def emax_def)
  then have u: "2 powi (binade \<bar>d\<bar> - 52) = (1 / 2 ^ 53 :: rat)"
    using assms(1) by (simp add: power_int_minus field_simps)
  define m where "m = round_half_even (d / (1 / 2 ^ 53))"
  have d: "d = of_int m / 2 ^ 53"
    using assms(3) unfolding round_double_def Let_def u m_def by simp
  with assms(2) have "(of_int m :: rat) < 2 ^ 53" by (simp add: field_simps)
  then have "(of_int m :: rat) < of_int (2 ^ 53)" by simp
  then have "m < 2 ^ 53" by (simp only: of_int_less_iff)
  then have "m \<le> 2 ^ 53 - 1" by simp
  then have "(of_int m :: rat) \<le> of_int (2 ^ 53 - 1)" by (simp only: of_int_le_iff)
  then show ?thesis unfolding d by (simp add: field_simps)
qed

text \<open>
  The rounded product of a double in \<open>[0, 1)\<close> and a length stays below the length, so
  its floor is an index.
\<close>

lemma floor_rounded_product:
  fixes n :: nat
  assumes "0 \<le> d" and "d < 1" and "round_double d = d" and "0 < n" and "n \<le> 2 ^ 53"
  shows "0 \<le> \<lfloor>round_double (d * of_nat n)\<rfloor> \<and> \<lfloor>round_double (d * of_nat n)\<rfloor> < int n"
proof -
  define x where "x = d * of_nat n"
  define E where "E = binade \<bar>x\<bar>"
  define u where "u = (2::rat) powi (E - 52)"
  have n1: "(1::rat) \<le> of_nat n" using assms(4) by simp
  have x0: "0 \<le> x" using assms(1) by (simp add: x_def)
  have dle: "d \<le> 1 - 1 / 2 ^ 53" using assms(1-3) by (rule double_below_one)
  have xle: "x \<le> of_nat n - of_nat n / 2 ^ 53"
  proof -
    have "d * of_nat n \<le> (1 - 1 / 2 ^ 53) * of_nat n"
      using dle by (intro mult_right_mono) simp_all
    then show ?thesis by (simp add: x_def algebra_simps)
  qed
  have xn: "x < of_nat n" using xle n1 by (simp add: field_simps) 
  have upos: "0 < u" by (simp add: u_def)
  have "(2::rat) powi emin < 2 powi 0"
    using emin_emax(2) by (intro power_int_strict_increasing) simp_all
  then have "(2::rat) powi emin < of_nat n" using n1 by simp
  moreover have "2 powi E \<le> max x (2 powi emin)"
    unfolding E_def using x0 binade_le_max [of x] by simp
  ultimately have En: "2 powi E < (of_nat n :: rat)" using xn by (simp add: max_def split: if_splits)
  have "(of_nat n :: rat) \<le> of_nat (2 ^ 53)" using assms(5) by (simp only: of_nat_le_iff)
  then have "(of_nat n :: rat) \<le> 2 powi 53" by simp
  with En have "(2::rat) powi E < 2 powi 53" by simp
  then have E53: "E < 53"
    using power_int_increasing [of 53 E "2::rat"] by (cases "E < 53") auto
  have uhalf: "u / 2 = 2 powi E / 2 ^ 53"
    by (simp add: u_def power_int_diff)
  have xlt: "x < of_nat n - u / 2"
  proof -
    have "2 powi E / 2 ^ 53 < (of_nat n :: rat) / 2 ^ 53"
      using En by (simp add: divide_strict_right_mono)
    with xle show ?thesis unfolding uhalf by simp
  qed
  define N where "N = int n * 2 ^ nat (52 - E)"
  have inv: "1 / u = 2 ^ nat (52 - E)"
  proof -
    have "1 / u = (2::rat) powi (52 - E)"
      by (simp add: u_def power_int_diff field_simps)
    also have "\<dots> = 2 ^ nat (52 - E)"
      using E53 by (simp add: power_int_def)
    finally show ?thesis .
  qed
  have N: "of_nat n / u = (of_int N :: rat)"
  proof -
    have "of_nat n / u = of_nat n * (1 / u)" by simp
    then show ?thesis unfolding inv by (simp add: N_def)
  qed
  have "x / u < (of_nat n - u / 2) / u"
    using xlt upos by (simp add: divide_strict_right_mono)
  also have "\<dots> = of_int N - 1 / 2"
    using upos by (simp add: diff_divide_distrib N)
  finally have "round_half_even (x / u) < N" by (rule round_half_even_below)
  then have "round_half_even (x / u) \<le> N - 1" by simp
  then have "(of_int (round_half_even (x / u)) :: rat) \<le> of_int (N - 1)"
    by (simp only: of_int_le_iff)
  then have "of_int (round_half_even (x / u)) * u \<le> of_int (N - 1) * u"
    using upos by (intro mult_right_mono) simp_all
  also have "\<dots> = of_nat n - u"
    using upos N by (simp add: field_simps)
  also have "\<dots> < of_nat n" using upos by simp
  finally have "round_double x < of_nat n"
    by (simp add: round_double_def Let_def u_def E_def)
  then have "\<lfloor>round_double x\<rfloor> < int n" by (simp add: floor_less_iff)
  moreover have "0 \<le> \<lfloor>round_double x\<rfloor>"
    using round_double_nonneg [OF x0] by simp
  ultimately show ?thesis by (simp add: x_def)
qed

lemma round_half_even_floor:
  assumes "of_int f \<le> q" and "q < of_int f + 1"
  shows "round_half_even q =
    (if q - of_int f < 1 / 2 then f else if 1 / 2 < q - of_int f then f + 1
     else if even f then f else f + 1)"
proof -
  have "\<lfloor>q\<rfloor> = f" using assms by (intro floor_unique) simp_all
  then show ?thesis by (simp add: round_half_even_def Let_def)
qed

lemma round_double_half: "round_double (1 / 2) = 1 / 2"
proof -
  have "binade (1 / 2) = - 1"
    by (rule binade_eq) (simp_all add: emin_def emax_def)
  then show ?thesis by (simp add: round_double_def round_half_even_def Let_def)
qed

section \<open>Facts about the random cell\<close>

lemma at_index_random:
  assumes "0 \<le> draw" and "draw < 1" and "round_double draw = draw"
    and "xs \<noteq> []" and "length xs \<le> 2 ^ 53"
  shows "\<exists>m\<in>set xs. at_index xs \<lfloor>round_double (draw * of_nat (length xs))\<rfloor> = Move m"
proof -
  let ?k = "\<lfloor>round_double (draw * of_nat (length xs))\<rfloor>"
  have "0 < length xs" using assms(4) by simp
  from floor_rounded_product [OF assms(1-3) this assms(5)]
  have "0 \<le> ?k" and "?k < int (length xs)" by simp_all
  then have "at_index xs ?k = Move (xs ! nat ?k)" and "nat ?k < length xs"
    by (simp_all add: at_index_def nat_less_iff)
  then show ?thesis by (metis nth_mem)
qed

lemma length_available: "length (available board) \<le> length board"
  using length_filter_le [of "\<lambda>i. board ! i = None" "[0..<length board]"]
  by (simp add: available_eq)

section \<open>Evaluation on boards written out cell by cell\<close>

lemma read9:
  "read [a, b, c, d, e, f, g, h, i] 0 = Some a"
  "read [a, b, c, d, e, f, g, h, i] 1 = Some b"
  "read [a, b, c, d, e, f, g, h, i] 2 = Some c"
  "read [a, b, c, d, e, f, g, h, i] 3 = Some d"
  "read [a, b, c, d, e, f, g, h, i] 4 = Some e"
  "read [a, b, c, d, e, f, g, h, i] 5 = Some f"
  "read [a, b, c, d, e, f, g, h, i] 6 = Some g"
  "read [a, b, c, d, e, f, g, h, i] 7 = Some h"
  "read [a, b, c, d, e, f, g, h, i] 8 = Some i"
  by (simp_all add: read_def)

lemma nth9:
  "[a, b, c, d, e, f, g, h, i] ! 0 = a"
  "[a, b, c, d, e, f, g, h, i] ! 1 = b"
  "[a, b, c, d, e, f, g, h, i] ! 2 = c"
  "[a, b, c, d, e, f, g, h, i] ! 3 = d"
  "[a, b, c, d, e, f, g, h, i] ! 4 = e"
  "[a, b, c, d, e, f, g, h, i] ! 5 = f"
  "[a, b, c, d, e, f, g, h, i] ! 6 = g"
  "[a, b, c, d, e, f, g, h, i] ! 7 = h"
  "[a, b, c, d, e, f, g, h, i] ! 8 = i"
  by simp_all

lemma update9:
  "[a, b, c, d, e, f, g, h, i][0 := v] = [v, b, c, d, e, f, g, h, i]"
  "[a, b, c, d, e, f, g, h, i][1 := v] = [a, v, c, d, e, f, g, h, i]"
  "[a, b, c, d, e, f, g, h, i][2 := v] = [a, b, v, d, e, f, g, h, i]"
  "[a, b, c, d, e, f, g, h, i][3 := v] = [a, b, c, v, e, f, g, h, i]"
  "[a, b, c, d, e, f, g, h, i][4 := v] = [a, b, c, d, v, f, g, h, i]"
  "[a, b, c, d, e, f, g, h, i][5 := v] = [a, b, c, d, e, v, g, h, i]"
  "[a, b, c, d, e, f, g, h, i][6 := v] = [a, b, c, d, e, f, v, h, i]"
  "[a, b, c, d, e, f, g, h, i][7 := v] = [a, b, c, d, e, f, g, v, i]"
  "[a, b, c, d, e, f, g, h, i][8 := v] = [a, b, c, d, e, f, g, h, v]"
  by (simp_all add: eval_nat_numeral)

lemma winner_loop_Cons:
  "winner (evaluateWinner_loop (t # ts) board) =
     (if trio_complete board t then board ! fst t else winner (evaluateWinner_loop ts board))"
  by simp

lemma winner9:
  "winner (evaluateWinner [a, b, c, d, e, f, g, h, i]) =
    (if a \<noteq> None \<and> a = b \<and> b = c then a
     else if d \<noteq> None \<and> d = e \<and> e = f then d
     else if g \<noteq> None \<and> g = h \<and> h = i then g
     else if a \<noteq> None \<and> a = d \<and> d = g then a
     else if b \<noteq> None \<and> b = e \<and> e = h then b
     else if c \<noteq> None \<and> c = f \<and> f = i then c
     else if a \<noteq> None \<and> a = e \<and> e = i then a
     else if c \<noteq> None \<and> c = e \<and> e = g then c
     else None)"
  unfolding evaluateWinner_def WINNING_TRIOS_def winner_loop_Cons
  by (simp only: trio_complete.simps read9 nth9 truthy_Some option.inject fst_conv
        evaluateWinner_loop.simps evaluation.simps)

lemma available_Cons:
  "available (c # cs) = (if c = None then [0] else []) @ map Suc (available cs)"
proof -
  have "[0..<length (c # cs)] = 0 # map Suc [0..<length cs]"
    by (simp add: upt_conv_Cons map_Suc_upt del: upt_Suc)
  then show ?thesis
    by (simp add: available_eq filter_map comp_def del: upt_Suc)
qed

lemma available9:
  "available [a, b, c, d, e, f, g, h, i] =
    (if a = None then [0] else []) @ (if b = None then [1] else []) @
    (if c = None then [2] else []) @ (if d = None then [3] else []) @
    (if e = None then [4] else []) @ (if f = None then [5] else []) @
    (if g = None then [6] else []) @ (if h = None then [7] else []) @
    (if i = None then [8] else [])"
  by (simp add: available_Cons available_eq [of "[]"] if_distrib [of "map Suc"]
      eval_nat_numeral split del: if_split cong del: if_weak_cong)

lemma every_Boolean9:
  "every_Boolean [a, b, c, d, e, f, g, h, i] \<longleftrightarrow>
     a \<noteq> None \<and> b \<noteq> None \<and> c \<noteq> None \<and> d \<noteq> None \<and> e \<noteq> None
     \<and> f \<noteq> None \<and> g \<noteq> None \<and> h \<noteq> None \<and> i \<noteq> None"
  by (simp add: every_Boolean_def)

lemmas board9 = nth9 update9 winner9

text \<open>On a board with an empty cell the result is one of the empty cells.\<close>

lemma pickBestMove_available:
  assumes "available board \<noteq> []" and "0 \<le> draw2" and "draw2 < 1"
    and "round_double draw2 = draw2" and "length board \<le> 2 ^ 53"
  shows "\<exists>move\<in>set (available board).
          fst (pickBestMove board ai human difficulty draw1 draw2) = Move move"
proof (cases "find (wins_at board ai) (available board)")
  case (Some move)
  then have "move \<in> set (available board)" by (auto simp: find_available available_empty)
  with Some assms(1) show ?thesis by (simp add: pickBestMove_result)
next
  case None
  show ?thesis
  proof (cases "find (wins_at board human) (available board)")
    case (Some move)
    then have "move \<in> set (available board)" by (auto simp: find_available available_empty)
    with Some None assms(1) show ?thesis by (simp add: pickBestMove_result)
  next
    case none: None
    show ?thesis
    proof (cases "draw1 < mistakes difficulty")
      case True
      have "length (available board) \<le> 2 ^ 53"
        using length_available [of board] assms(5) by simp
      with None none True assms(1) at_index_random [OF assms(2,3,4,1)] show ?thesis
        by (simp add: pickBestMove_result)
    next
      case nodraw: False
      have "fst (search_loop (available board) board NegInf (hd (available board)) ai human)
          \<in> set (available board)"
        using search_loop_mem [of "available board" board NegInf "hd (available board)" ai human]
          assms(1) by auto
      with None none assms(1) nodraw show ?thesis by (simp add: pickBestMove_result)
    qed
  qed
qed

section \<open>Positions the automated player does not lose\<close>

text \<open>
  \<open>nonlosing board isMaximising ai human\<close>: with \<open>ai\<close> to move when \<open>isMaximising\<close>
  and \<open>human\<close> to move otherwise, \<open>ai\<close> can play so that \<open>human\<close> never gets a board
  on which \<open>evaluateWinner\<close> reports \<open>human\<close>. It follows the case analysis of
  \<open>minimax\<close>, with "some move" for the maximum and "every move" for the minimum.
\<close>

function nonlosing :: "board \<Rightarrow> bool \<Rightarrow> Player \<Rightarrow> Player \<Rightarrow> bool" where
  "nonlosing board isMaximising ai human =
     (if winner (evaluateWinner board) = Some ai then True
      else if winner (evaluateWinner board) = Some human then False
      else if every_Boolean board then True
      else if isMaximising
        then list_ex (\<lambda>i. nonlosing (board[i := Some ai]) False ai human) (available board)
        else list_all (\<lambda>i. nonlosing (board[i := Some human]) True ai human) (available board))"
  by pat_completeness auto
termination
  by (relation "measure (\<lambda>(board, m, ai, human). empties board)")
    (auto simp: available_empty empties_update_Some)

declare nonlosing.simps [simp del]

definition nonneg :: "num \<Rightarrow> bool" where
  "nonneg s = num_less (Fin (- 1)) s"

lemma nonneg_Fin [simp]: "nonneg (Fin k) \<longleftrightarrow> 0 \<le> k"
  by (auto simp: nonneg_def)

lemma nonneg_Math_max: "nonneg (Math_max scores) \<longleftrightarrow> (\<exists>s\<in>set scores. nonneg s)"
  by (simp add: nonneg_def Math_max_def num_less_foldl_max)

lemma nonneg_Math_min: "nonneg (Math_min scores) \<longleftrightarrow> (\<forall>s\<in>set scores. nonneg s)"
  by (simp add: nonneg_def Math_min_def num_less_foldl_min)

lemma nonneg_mono: "nonneg a \<Longrightarrow> \<not> num_less b a \<Longrightarrow> nonneg b"
  unfolding nonneg_def by (cases a; cases b) auto

text \<open>
  While the depth plus the number of empty cells is at most 9, every win is scored above
  0 and every loss below, so the sign of the score says whether the position is lost.
\<close>

lemma minimax_nonneg_iff:
  assumes "ai \<noteq> human"
  shows "depth + int (empties board) \<le> 9 \<Longrightarrow>
     nonneg (fst (minimax board depth m ai human)) \<longleftrightarrow> nonlosing board m ai human"
proof (induction board arbitrary: depth m rule: board_induct)
  case (fill board)
  have d: "depth \<le> 9" using fill.prems by simp
  have IH: "nonneg (fst (minimax (board[j := Some p]) (depth + 1) m' ai human))
      \<longleftrightarrow> nonlosing (board[j := Some p]) m' ai human"
    if "j \<in> set (available board)" for j p m'
  proof -
    from that have j: "j < length board" "board ! j = None" by (simp_all add: available_empty)
    then have "empties (board[j := Some p]) < empties board" by (rule empties_update_Some)
    with fill.prems have "depth + 1 + int (empties (board[j := Some p])) \<le> 9" by simp
    with fill.IH [OF j] show ?thesis by simp
  qed
  show ?case
  proof (cases "winner (evaluateWinner board) = Some ai \<or> winner (evaluateWinner board) = Some human
      \<or> every_Boolean board")
    case True
    then show ?thesis
      using d assms by (subst minimax_unfold, subst nonlosing.simps) auto
  next
    case False
    show ?thesis
    proof (cases m)
      case True
      with False IH show ?thesis
        by (subst minimax_unfold, subst nonlosing.simps)
          (simp add: nonneg_Math_max list_ex_iff)
    next
      case m: False
      with False IH show ?thesis
        by (subst minimax_unfold, subst nonlosing.simps)
          (simp add: nonneg_Math_min list_all_iff)
    qed
  qed
qed

lemma empties_le_length: "empties board \<le> length board"
  by (simp add: empties_def)

text \<open>The move kept by the last loop of \<open>pickBestMove\<close> has a score no other move exceeds.\<close>

lemma search_loop_best:
  fixes board :: board and ai human :: Player
  assumes "\<forall>move\<in>set moves. move < length board \<and> board ! move = None"
  defines "sc \<equiv> \<lambda>move. fst (minimax (board[move := Some ai]) 0 False ai human)"
  shows "(fst (search_loop moves board bestScore chosenMove ai human) = chosenMove
            \<and> (\<forall>move\<in>set moves. \<not> num_less bestScore (sc move)))
       \<or> (fst (search_loop moves board bestScore chosenMove ai human) \<in> set moves
            \<and> num_less bestScore (sc (fst (search_loop moves board bestScore chosenMove ai human)))
            \<and> (\<forall>move\<in>set moves.
                  \<not> num_less (sc (fst (search_loop moves board bestScore chosenMove ai human)))
                      (sc move)))"
  using assms(1)
proof (induction moves arbitrary: bestScore chosenMove)
  case Nil
  then show ?case by simp
next
  case (Cons move moves)
  have r: "board[move := None] = board"
    using Cons.prems by (simp add: list_update_same_conv)
  have ok: "\<forall>move\<in>set moves. move < length board \<and> board ! move = None"
    using Cons.prems by simp
  show ?case
  proof (cases "num_less bestScore (sc move)")
    case True
    then have step: "search_loop (move # moves) board bestScore chosenMove ai human =
        search_loop moves board (sc move) move ai human"
      by (simp add: case_prod_unfold r sc_def)
    let ?c = "fst (search_loop moves board (sc move) move ai human)"
    from Cons.IH [OF ok, of "sc move" move]
    consider (keep) "?c = move" "\<forall>m\<in>set moves. \<not> num_less (sc move) (sc m)"
      | (later) "?c \<in> set moves" "num_less (sc move) (sc ?c)"
          "\<forall>m\<in>set moves. \<not> num_less (sc ?c) (sc m)"
      by blast
    then show ?thesis
    proof cases
      case keep
      with True show ?thesis unfolding step by auto
    next
      case later
      have "num_less bestScore (sc ?c)"
        using True later(2) by (rule num_less_trans)
      moreover have "\<not> num_less (sc ?c) (sc move)"
        using later(2) num_less_trans [of "sc move" "sc ?c" "sc move"] by auto
      ultimately show ?thesis unfolding step using later by auto
    qed
  next
    case False
    then have step: "search_loop (move # moves) board bestScore chosenMove ai human =
        search_loop moves board bestScore chosenMove ai human"
      by (simp add: case_prod_unfold r sc_def)
    let ?c = "fst (search_loop moves board bestScore chosenMove ai human)"
    from Cons.IH [OF ok, of bestScore chosenMove]
    consider (keep) "?c = chosenMove" "\<forall>m\<in>set moves. \<not> num_less bestScore (sc m)"
      | (later) "?c \<in> set moves" "num_less bestScore (sc ?c)"
          "\<forall>m\<in>set moves. \<not> num_less (sc ?c) (sc m)"
      by blast
    then show ?thesis
    proof cases
      case keep
      with False show ?thesis unfolding step by auto
    next
      case later
      have "\<not> num_less (sc ?c) (sc move)"
        using False later(2) num_less_trans [of bestScore "sc ?c" "sc move"] by auto
      then show ?thesis unfolding step using later by auto
    qed
  qed
qed

section \<open>Lines and single moves\<close>

lemma nth_list_update_if:
  "xs[i := x] ! j = (if i = j \<and> i < length xs then x else xs ! j)"
  by (cases "i < length xs") (simp_all add: nth_list_update not_less list_update_beyond)

lemma Player_two: "p \<noteq> q \<Longrightarrow> r = p \<or> r = (q :: Player)"
  by (cases p; cases q; cases r) auto

lemma line_held_update_other:
  "q \<noteq> p \<Longrightarrow> line_held (board[i := Some p]) q t \<Longrightarrow> line_held board q t"
  by (cases t) (auto simp: line_held_def nth_list_update_if split: if_splits)

lemma has_line_update_other:
  "q \<noteq> p \<Longrightarrow> has_line (board[i := Some p]) q \<Longrightarrow> has_line board q"
  by (auto simp: has_line_def list_ex_iff dest: line_held_update_other)

lemma line_held_update_keep:
  "board ! i = None \<Longrightarrow> line_held board q t \<Longrightarrow> line_held (board[i := Some p]) q t"
  by (cases t) (auto simp: line_held_def nth_list_update_if)

lemma has_line_update_keep:
  "board ! i = None \<Longrightarrow> has_line board q \<Longrightarrow> has_line (board[i := Some p]) q"
  by (auto simp: has_line_def list_ex_iff dest: line_held_update_keep)

text \<open>
  On a 9-cell board without a completed line, the test of the two immediate loops succeeds
  at a move exactly when the mark holds a completed line once it is placed there.
\<close>

lemma wins_at_completes:
  assumes "length board = 9" and "\<forall>p. \<not> has_line board p"
  shows "wins_at board mark i \<longleftrightarrow> has_line (board[i := Some mark]) mark"
proof
  assume "wins_at board mark i"
  then show "has_line (board[i := Some mark]) mark"
    using assms(1) by (intro winner_Some_has_line) (simp_all add: wins_at_def)
next
  assume hl: "has_line (board[i := Some mark]) mark"
  have "\<forall>q. q \<noteq> mark \<longrightarrow> \<not> has_line (board[i := Some mark]) q"
    using assms(2) has_line_update_other [of _ mark board i] by blast
  with hl show "wins_at board mark i"
    unfolding wins_at_def using assms(1) by (intro has_line_winner) simp_all
qed

lemma winner_two:
  assumes "ai \<noteq> human" and "winner (evaluateWinner board) \<noteq> Some ai"
    and "winner (evaluateWinner board) \<noteq> Some human"
  shows "winner (evaluateWinner board) = None"
proof (cases "winner (evaluateWinner board)")
  case None
  then show ?thesis .
next
  case (Some r)
  with Player_two [OF assms(1), of r] assms(2,3) show ?thesis by auto
qed

lemma nonlosing_not_lost:
  "ai \<noteq> human \<Longrightarrow> nonlosing board m ai human \<Longrightarrow> winner (evaluateWinner board) \<noteq> Some human"
  by (subst (asm) nonlosing.simps) (auto split: if_splits)

lemma nonlosing_human_step:
  assumes "nonlosing board False ai human" and "winner (evaluateWinner board) = None"
    and "\<not> every_Boolean board" and "i < length board" and "board ! i = None"
  shows "nonlosing (board[i := Some human]) True ai human"
proof -
  from assms(1-3) have "list_all (\<lambda>i. nonlosing (board[i := Some human]) True ai human)
      (available board)"
    by (subst (asm) nonlosing.simps) simp
  moreover have "i \<in> set (available board)" using assms(4,5) by (simp add: available_empty)
  ultimately show ?thesis by (simp add: list_all_iff)
qed

lemma nonlosing_ai_move:
  assumes "nonlosing board True ai human" and "winner (evaluateWinner board) = None"
    and "\<not> every_Boolean board"
  shows "\<exists>i\<in>set (available board). nonlosing (board[i := Some ai]) False ai human"
  using assms by (subst (asm) nonlosing.simps) (simp add: list_ex_iff)

text \<open>
  From a position that is not lost, the move \<open>pickBestMove\<close> returns at difficulty
  \<^verbatim>\<open>"perfect"\<close> leads to a position that is not lost: an immediate win ends the game,
  a block is the only move that does not lose at once, and the search keeps a move whose
  score is the maximum.
\<close>

lemma pickBestMove_keeps_nonlosing:
  assumes len: "length board = 9" and d: "ai \<noteq> human"
    and w: "winner (evaluateWinner board) = None" and nf: "\<not> every_Boolean board"
    and nl: "nonlosing board True ai human" and dr: "0 \<le> draw1"
    and pick: "fst (pickBestMove board ai human Perfect draw1 draw2) = Move move"
  shows "move < 9 \<and> board ! move = None \<and> nonlosing (board[move := Some ai]) False ai human"
proof -
  let ?avail = "available board"
  have ne: "?avail \<noteq> []" using nf by (rule not_every_Boolean_available)
  have nodraw: "\<not> draw1 < mistakes Perfect" using dr by (simp add: mistakes_def)
  from nonlosing_ai_move [OF nl w nf]
  obtain m' where m': "m' \<in> set ?avail" and nl1: "nonlosing (board[m' := Some ai]) False ai human"
    by blast
  have m'e: "m' < 9" "board ! m' = None" using m' len by (simp_all add: available_empty)
  have lineless: "\<not> has_line board p" for p using w winner_None_iff [OF len] by simp
  show ?thesis
  proof (cases "find (wins_at board ai) ?avail")
    case (Some mv)
    with pick ne have "mv = move" by (simp add: pickBestMove_result)
    with Some have mv: "move < 9" "board ! move = None" "wins_at board ai move"
      using len by (simp_all add: find_available)
    then have "nonlosing (board[move := Some ai]) False ai human"
      by (subst nonlosing.simps) (simp add: wins_at_def)
    with mv show ?thesis by simp
  next
    case None
    then have nowin: "\<not> wins_at board ai j" if "j \<in> set ?avail" for j
      using that by (simp add: find_available_None available_empty)
    show ?thesis
    proof (cases "find (wins_at board human) ?avail")
      case (Some mv)
      with pick ne None have "mv = move" by (simp add: pickBestMove_result)
      with Some have mv: "move < 9" "board ! move = None" "wins_at board human move"
        using len by (simp_all add: find_available)
      have "m' = move"
      proof (rule ccontr)
        assume neq: "m' \<noteq> move"
        let ?b1 = "board[m' := Some ai]"
        let ?b2 = "?b1[move := Some human]"
        have len1: "length ?b1 = 9" and len2: "length ?b2 = 9" using len by simp_all
        have "winner (evaluateWinner ?b1) \<noteq> Some ai"
          using nowin [OF m'] by (simp add: wins_at_def)
        moreover have "winner (evaluateWinner ?b1) \<noteq> Some human"
          using nonlosing_not_lost [OF d nl1] .
        ultimately have w1: "winner (evaluateWinner ?b1) = None" using d by (intro winner_two)
        have e1: "?b1 ! move = None" using mv(2) neq by simp
        then have nf1: "\<not> every_Boolean ?b1"
          using mv(1) len by (auto simp: every_Boolean_def list_all_length)
        have nl2: "nonlosing ?b2 True ai human"
          using nl1 w1 nf1 _ e1 by (rule nonlosing_human_step) (simp add: len mv(1))
        have "has_line (board[move := Some human]) human"
          using mv(3) len by (intro winner_Some_has_line) (simp_all add: wins_at_def)
        moreover have "board[move := Some human] ! m' = None" using m'e(2) neq by simp
        ultimately have "has_line (board[move := Some human, m' := Some ai]) human"
          by (rule has_line_update_keep [rotated])
        then have hl: "has_line ?b2 human" using neq by (simp add: list_update_swap)
        have "\<not> has_line ?b1 ai" using w1 winner_None_iff [OF len1] by simp
        then have "\<not> has_line ?b2 ai" using d has_line_update_other [of ai human ?b1 move] by blast
        then have "\<forall>q. q \<noteq> human \<longrightarrow> \<not> has_line ?b2 q"
        proof (intro allI impI)
          fix q assume "\<not> has_line ?b2 ai" and "q \<noteq> human"
          with Player_two [OF d, of q] show "\<not> has_line ?b2 q" by auto
        qed
        with hl have "winner (evaluateWinner ?b2) = Some human"
          using len2 by (intro has_line_winner)
        with nonlosing_not_lost [OF d nl2] show False by simp
      qed
      with nl1 mv show ?thesis by simp
    next
      case none: None
      define sc where "sc = (\<lambda>move. fst (minimax (board[move := Some ai]) 0 False ai human))"
      have av: "\<forall>move\<in>set ?avail. move < length board \<and> board ! move = None"
        by (simp add: available_empty)
      have mv: "move = fst (search_loop ?avail board NegInf (hd ?avail) ai human)"
        using pick ne None none nodraw by (simp add: pickBestMove_result)
      have fin: "num_less NegInf (sc j)" for j
        using minimax_finite [of "board[j := Some ai]" 0 False ai human] by (auto simp: sc_def)
      have "(move = hd ?avail \<and> (\<forall>j\<in>set ?avail. \<not> num_less NegInf (sc j)))
          \<or> (move \<in> set ?avail \<and> num_less NegInf (sc move)
               \<and> (\<forall>j\<in>set ?avail. \<not> num_less (sc move) (sc j)))"
        unfolding mv sc_def by (rule search_loop_best [OF av])
      moreover have "hd ?avail \<in> set ?avail" using ne by simp
      ultimately have best: "move \<in> set ?avail" "\<forall>j\<in>set ?avail. \<not> num_less (sc move) (sc j)"
        using fin by blast+
      have e: "move < 9" "board ! move = None" using best(1) len by (simp_all add: available_empty)
      have sign: "nonneg (sc j) \<longleftrightarrow> nonlosing (board[j := Some ai]) False ai human" for j
        unfolding sc_def using empties_le_length [of "board[j := Some ai]"] len
        by (intro minimax_nonneg_iff [OF d]) simp
      from nl1 have "nonneg (sc m')" by (simp add: sign)
      moreover have "\<not> num_less (sc move) (sc m')" using best(2) m' by simp
      ultimately have "nonneg (sc move)" by (rule nonneg_mono)
      then show ?thesis using e by (simp add: sign)
    qed
  qed
qed

text \<open>
  The empty board is not lost for either side to move. The search is run by rewriting,
  with the equations of \<open>nonlosing\<close> on boards written out cell by cell.
\<close>

lemmas nonlosing9 = nonlosing.simps [of "[a, b, c, d, e, f, g, h, i]" for a b c d e f g h i]

lemma nonlosing_emptyBoard_O_first:
  "nonlosing [None, None, None, None, None, None, None, None, None] True PlayerO PlayerX"
  by (simp only: nonlosing9 winner9 available9 every_Boolean9 update9 if_True if_False
      option.inject option.distinct Player.distinct simp_thms append.simps
      list_ex_Nil_iff list_ex_Cons_iff list_all_Nil_iff list_all_Cons_iff
      cong: if_weak_cong disj_left_cong conj_left_cong)

lemma nonlosing_emptyBoard_X_first:
  "nonlosing [None, None, None, None, None, None, None, None, None] True PlayerX PlayerO"
  by (simp only: nonlosing9 winner9 available9 every_Boolean9 update9 if_True if_False
      option.inject option.distinct Player.distinct simp_thms append.simps
      list_ex_Nil_iff list_ex_Cons_iff list_all_Nil_iff list_all_Cons_iff
      cong: if_weak_cong disj_left_cong conj_left_cong)

lemma nonlosing_emptyBoard_O_second:
  "nonlosing [None, None, None, None, None, None, None, None, None] False PlayerO PlayerX"
  by (simp only: nonlosing9 winner9 available9 every_Boolean9 update9 if_True if_False
      option.inject option.distinct Player.distinct simp_thms append.simps
      list_ex_Nil_iff list_ex_Cons_iff list_all_Nil_iff list_all_Cons_iff
      cong: if_weak_cong disj_left_cong conj_left_cong)

lemma nonlosing_emptyBoard_X_second:
  "nonlosing [None, None, None, None, None, None, None, None, None] False PlayerX PlayerO"
  by (simp only: nonlosing9 winner9 available9 every_Boolean9 update9 if_True if_False
      option.inject option.distinct Player.distinct simp_thms append.simps
      list_ex_Nil_iff list_ex_Cons_iff list_all_Nil_iff list_all_Cons_iff
      cong: if_weak_cong disj_left_cong conj_left_cong)

lemma nonlosing_emptyBoard: "nonlosing emptyBoard m (nextPlayer humanSymbol) humanSymbol"
  using nonlosing_emptyBoard_O_first nonlosing_emptyBoard_X_first
    nonlosing_emptyBoard_O_second nonlosing_emptyBoard_X_second
  by (cases m; cases humanSymbol) (simp_all add: emptyBoard_cells nextPlayer_def)

section \<open>The invariant of a round against the perfect player\<close>

definition round_inv :: "Player \<Rightarrow> session \<Rightarrow> bool" where
  "round_inv humanSymbol s \<longleftrightarrow>
     length (boardState s) = 9
     \<and> \<not> has_line (boardState s) humanSymbol
     \<and> winnerState s \<noteq> Some (Won humanSymbol)
     \<and> (winnerState s = None \<longrightarrow>
          winner (evaluateWinner (boardState s)) = None
          \<and> \<not> every_Boolean (boardState s)
          \<and> nonlosing (boardState s) (currentPlayer s = nextPlayer humanSymbol)
                (nextPlayer humanSymbol) humanSymbol)"

lemma nextPlayer_neq [simp]: "nextPlayer p \<noteq> p" "p \<noteq> nextPlayer p"
  by (cases p; simp add: nextPlayer_def)+

lemma nextPlayer_eq_iff [simp]: "nextPlayer p = nextPlayer q \<longleftrightarrow> p = q"
  by (cases p; cases q) (simp_all add: nextPlayer_def)

lemma emptyBoard_lineless: "\<not> has_line emptyBoard p"
  by (simp add: has_line_def WINNING_TRIOS_def line_held_def emptyBoard_cells)

lemma round_inv_fresh: "round_inv humanSymbol (startFreshBoard starter s)"
proof -
  have "length emptyBoard = 9" by (simp add: emptyBoard_def)
  moreover from this have "winner (evaluateWinner emptyBoard) = None"
    by (simp add: winner_None_iff emptyBoard_lineless)
  moreover have "\<not> every_Boolean emptyBoard"
    by (simp add: emptyBoard_cells every_Boolean9)
  ultimately show ?thesis
    by (simp add: round_inv_def startFreshBoard_def emptyBoard_lineless nonlosing_emptyBoard)
qed

lemma round_inv_makeMove:
  assumes inv: "round_inv humanSymbol s" and open_round: "winnerState s = None"
    and idx: "index < 9" and cell: "boardState s ! index = None"
    and nl: "nonlosing ((boardState s)[index := Some player]) (player = humanSymbol)
               (nextPlayer humanSymbol) humanSymbol"
    and noline: "\<not> has_line ((boardState s)[index := Some player]) humanSymbol"
  shows "round_inv humanSymbol (makeMove index player s)"
proof -
  let ?next = "(boardState s)[index := Some player]"
  have len: "length (boardState s) = 9" using inv by (simp add: round_inv_def)
  have guard: "\<not> truthy (read (boardState s) index)"
    using cell idx len by (simp add: read_def)
  have notlost: "winner (evaluateWinner ?next) \<noteq> Some humanSymbol"
    using nl by (intro nonlosing_not_lost [of "nextPlayer humanSymbol"]) simp_all
  show ?thesis
  proof (cases "winner (evaluateWinner ?next) \<noteq> None \<or> every_Boolean ?next")
    case True
    then show ?thesis
      using open_round guard notlost noline len
      by (auto simp: makeMove_def applyWin_def Let_def round_inv_def split: option.splits)
  next
    case False
    then show ?thesis
      using open_round guard noline len nl
      by (simp add: makeMove_def Let_def round_inv_def)
  qed
qed

lemma round_inv_click:
  assumes inv: "round_inv humanSymbol s" and idx: "index < 9"
  shows "round_inv humanSymbol (handleSquareClick humanSymbol index s)"
proof (cases "winnerState s \<noteq> None \<or> truthy (read (boardState s) index)
    \<or> currentPlayer s \<noteq> humanSymbol")
  case True
  then show ?thesis using inv by (auto simp: handleSquareClick_def)
next
  case False
  have len: "length (boardState s) = 9" using inv by (simp add: round_inv_def)
  from False have open_round: "winnerState s = None" and turn: "currentPlayer s = humanSymbol"
    by simp_all
  from False have cell: "boardState s ! index = None"
    using idx len by (simp add: read_def)
  from inv open_round turn have w: "winner (evaluateWinner (boardState s)) = None"
    and nf: "\<not> every_Boolean (boardState s)"
    and nl: "nonlosing (boardState s) False (nextPlayer humanSymbol) humanSymbol"
    by (simp_all add: round_inv_def)
  let ?next = "(boardState s)[index := Some humanSymbol]"
  have nl': "nonlosing ?next True (nextPlayer humanSymbol) humanSymbol"
    using nl w nf _ cell by (rule nonlosing_human_step) (simp add: len idx)
  have len': "length ?next = 9" using len by simp
  have noline: "\<not> has_line ?next humanSymbol"
  proof
    assume hl: "has_line ?next humanSymbol"
    have "\<not> has_line (boardState s) q" for q using w winner_None_iff [OF len] by simp
    then have "\<not> has_line ?next (nextPlayer humanSymbol)"
      using has_line_update_other [of "nextPlayer humanSymbol" humanSymbol "boardState s" index]
      by auto
    then have "\<forall>q. q \<noteq> humanSymbol \<longrightarrow> \<not> has_line ?next q"
    proof (intro allI impI)
      fix q assume "\<not> has_line ?next (nextPlayer humanSymbol)" and "q \<noteq> humanSymbol"
      with Player_two [of "nextPlayer humanSymbol" humanSymbol q] show "\<not> has_line ?next q"
        by auto
    qed
    with hl have "winner (evaluateWinner ?next) = Some humanSymbol"
      using len' by (intro has_line_winner)
    with nonlosing_not_lost [OF _ nl'] show False by simp
  qed
  have nl'': "nonlosing ?next (humanSymbol = humanSymbol) (nextPlayer humanSymbol) humanSymbol"
    using nl' by simp
  have "round_inv humanSymbol (makeMove index humanSymbol s)"
    using inv open_round idx cell nl'' noline by (rule round_inv_makeMove)
  with False show ?thesis by (simp add: handleSquareClick_def)
qed

lemma round_inv_bot:
  assumes inv: "round_inv humanSymbol s" and open_round: "winnerState s = None"
    and turn: "currentPlayer s = nextPlayer humanSymbol" and dr: "0 \<le> draw1"
    and pick: "fst (pickBestMove (boardState s) (nextPlayer humanSymbol) humanSymbol Perfect
                      draw1 draw2) = Move move"
  shows "round_inv humanSymbol (makeMove move (nextPlayer humanSymbol) s)"
proof -
  have len: "length (boardState s) = 9" using inv by (simp add: round_inv_def)
  from inv open_round turn have w: "winner (evaluateWinner (boardState s)) = None"
    and nf: "\<not> every_Boolean (boardState s)"
    and nl: "nonlosing (boardState s) True (nextPlayer humanSymbol) humanSymbol"
    and hl: "\<not> has_line (boardState s) humanSymbol"
    by (simp_all add: round_inv_def)
  from pickBestMove_keeps_nonlosing [OF len _ w nf nl dr pick]
  have mv: "move < 9" "boardState s ! move = None"
    "nonlosing ((boardState s)[move := Some (nextPlayer humanSymbol)]) False
       (nextPlayer humanSymbol) humanSymbol"
    by simp_all
  have noline: "\<not> has_line ((boardState s)[move := Some (nextPlayer humanSymbol)]) humanSymbol"
    using hl has_line_update_other [of humanSymbol "nextPlayer humanSymbol" "boardState s" move]
    by auto
  have nl': "nonlosing ((boardState s)[move := Some (nextPlayer humanSymbol)])
      (nextPlayer humanSymbol = humanSymbol) (nextPlayer humanSymbol) humanSymbol"
    using mv(3) by simp
  show ?thesis
    using inv open_round mv(1,2) nl' noline by (rule round_inv_makeMove)
qed

section \<open>The claims\<close>




text \<open>
  C2. If at some empty cell the mark of the automated player completes a winning line, in
  the sense of the code's test (with the mark placed there \<open>evaluateWinner\<close> reports
  that mark as the winner), then \<open>pickBestMove\<close> returns the smallest such index,
  whatever the opponent's mark, the difficulty and the draws are: the block check, the
  mistake draw and the search have no part in the result. On a 9-cell board without a
  completed line the test holds at a cell exactly when the mark holds a completed line
  once it is placed there.
\<close>

theorem pickBestMove_takes_first_win:
  assumes "i < length board" and "board ! i = None" and "wins_at board ai i"
  shows "(\<exists>move.
            (\<forall>human difficulty draw1 draw2.
               fst (pickBestMove board ai human difficulty draw1 draw2) = Move move)
          \<and> move < length board \<and> board ! move = None \<and> wins_at board ai move
          \<and> (\<forall>j<move. board ! j = None \<longrightarrow> \<not> wins_at board ai j))
       \<and> (length board = 9 \<and> (\<forall>p. \<not> has_line board p) \<longrightarrow>
            (\<forall>j. wins_at board ai j \<longleftrightarrow> has_line (board[j := Some ai]) ai))"
proof -
  have "find (wins_at board ai) (available board) \<noteq> None"
    using assms by (auto simp: find_available_None)
  then obtain move where f: "find (wins_at board ai) (available board) = Some move" by auto
  then have "available board \<noteq> []" by auto
  with f have "fst (pickBestMove board ai human difficulty draw1 draw2) = Move move"
    for human difficulty draw1 draw2
    by (simp add: pickBestMove_result)
  with f have "\<exists>move.
            (\<forall>human difficulty draw1 draw2.
               fst (pickBestMove board ai human difficulty draw1 draw2) = Move move)
          \<and> move < length board \<and> board ! move = None \<and> wins_at board ai move
          \<and> (\<forall>j<move. board ! j = None \<longrightarrow> \<not> wins_at board ai j)"
    by (auto simp: find_available)
  then show ?thesis using wins_at_completes by blast
qed

theorem pickBestMove_takes_first_win_witness:
  "fst (pickBestMove
     [Some PlayerX, Some PlayerX, None,
      Some PlayerO, Some PlayerO, None,
      None, None, None] PlayerO PlayerX Relaxed (1 / 2) (1 / 2)) = Move 5"
proof -
  let ?b = "[Some PlayerX, Some PlayerX, None,
      Some PlayerO, Some PlayerO, None,
      None, None, None]"
  have h: "5 < length ?b" "?b ! 5 = None" "wins_at ?b PlayerO 5"
    by (simp_all add: wins_at_def board9)
  from pickBestMove_takes_first_win [OF h]
  obtain move where r: "fst (pickBestMove ?b PlayerO PlayerX Relaxed (1 / 2) (1 / 2)) = Move move"
    and p: "move < length ?b \<and> ?b ! move = None \<and> wins_at ?b PlayerO move
       \<and> (\<forall>j<move. ?b ! j = None \<longrightarrow> \<not> wins_at ?b PlayerO j)"
    by blast
  from p have "find (wins_at ?b PlayerO) (available ?b) = Some move"
    by (rule iffD2 [OF find_available])
  moreover have "find (wins_at ?b PlayerO) (available ?b) = Some 5"
    by (simp add: available9 wins_at_def board9)
  ultimately have "move = 5" by simp
  with r show ?thesis by simp
qed

text \<open>
  C3. If the automated player's mark wins at no empty cell, and at some empty cell the
  opponent's mark completes a winning line (with it placed there \<open>evaluateWinner\<close>
  reports the opponent's mark, the same test as in C2), then \<open>pickBestMove\<close> returns
  the smallest such index, whatever the difficulty and the draws are. On a 9-cell board
  without a completed line the test holds at a cell exactly when the mark holds a
  completed line once it is placed there.
\<close>

theorem pickBestMove_blocks_first_threat:
  assumes "\<forall>j<length board. board ! j = None \<longrightarrow> \<not> wins_at board ai j"
    and "i < length board" and "board ! i = None" and "wins_at board human i"
  shows "(\<exists>move.
            (\<forall>difficulty draw1 draw2.
               fst (pickBestMove board ai human difficulty draw1 draw2) = Move move)
          \<and> move < length board \<and> board ! move = None \<and> wins_at board human move
          \<and> (\<forall>j<move. board ! j = None \<longrightarrow> \<not> wins_at board human j))
       \<and> (length board = 9 \<and> (\<forall>p. \<not> has_line board p) \<longrightarrow>
            (\<forall>mark j. wins_at board mark j \<longleftrightarrow> has_line (board[j := Some mark]) mark))"
proof -
  have none: "find (wins_at board ai) (available board) = None"
    using assms(1) by (simp add: find_available_None)
  have "find (wins_at board human) (available board) \<noteq> None"
    using assms(2-4) by (auto simp: find_available_None)
  then obtain move where f: "find (wins_at board human) (available board) = Some move" by auto
  then have "available board \<noteq> []" by auto
  with f none have "fst (pickBestMove board ai human difficulty draw1 draw2) = Move move"
    for difficulty draw1 draw2
    by (simp add: pickBestMove_result)
  with f have "\<exists>move.
            (\<forall>difficulty draw1 draw2.
               fst (pickBestMove board ai human difficulty draw1 draw2) = Move move)
          \<and> move < length board \<and> board ! move = None \<and> wins_at board human move
          \<and> (\<forall>j<move. board ! j = None \<longrightarrow> \<not> wins_at board human j)"
    by (auto simp: find_available)
  then show ?thesis using wins_at_completes by blast
qed

theorem pickBestMove_blocks_first_threat_witness:
  "fst (pickBestMove
     [Some PlayerX, None, None,
      None, Some PlayerO, None,
      Some PlayerX, None, None] PlayerO PlayerX Relaxed (1 / 2) (1 / 2)) = Move 3"
proof -
  let ?b = "[Some PlayerX, None, None,
      None, Some PlayerO, None,
      Some PlayerX, None, None]"
  have "find (wins_at ?b PlayerO) (available ?b) = None"
    by (simp add: available9 wins_at_def board9)
  then have nowin: "\<forall>j<length ?b. ?b ! j = None \<longrightarrow> \<not> wins_at ?b PlayerO j"
    by (simp only: find_available_None)
  have h: "3 < length ?b" "?b ! 3 = None" "wins_at ?b PlayerX 3"
    by (simp_all add: wins_at_def board9)
  from pickBestMove_blocks_first_threat [OF nowin h]
  obtain move where r: "fst (pickBestMove ?b PlayerO PlayerX Relaxed (1 / 2) (1 / 2)) = Move move"
    and p: "move < length ?b \<and> ?b ! move = None \<and> wins_at ?b PlayerX move
       \<and> (\<forall>j<move. ?b ! j = None \<longrightarrow> \<not> wins_at ?b PlayerX j)"
    by blast
  from p have "find (wins_at ?b PlayerX) (available ?b) = Some move"
    by (rule iffD2 [OF find_available])
  moreover have "find (wins_at ?b PlayerX) (available ?b) = Some 3"
    by (simp add: available9 wins_at_def board9)
  ultimately have "move = 3" by simp
  with r show ?thesis by simp
qed

text \<open>
  C4. On a 9-cell board, with the draw that picks the random cell a double in \<open>[0, 1)\<close>,
  \<open>pickBestMove\<close> returns \<^verbatim>\<open>null\<close> exactly when no cell is empty, and any other result
  is an index from 0 to 8 of a cell that is empty in the board it was given. In the
  mistake branch the index is the floor of the rounded product of the draw and the number
  of empty cells, which stays below that number.
\<close>

theorem pickBestMove_null_or_empty_cell:
  assumes "length board = 9" and "0 \<le> draw2" and "draw2 < 1" and "round_double draw2 = draw2"
  shows "(fst (pickBestMove board ai human difficulty draw1 draw2) = Null \<longleftrightarrow> None \<notin> set board)
    \<and> (fst (pickBestMove board ai human difficulty draw1 draw2) \<noteq> Null \<longrightarrow>
          (\<exists>move. fst (pickBestMove board ai human difficulty draw1 draw2) = Move move
             \<and> move < 9 \<and> board ! move = None))"
proof (cases "available board = []")
  case True
  then show ?thesis by (simp add: pickBestMove_result available_Nil_iff)
next
  case False
  have "length board \<le> 2 ^ 53" using assms(1) by simp
  from pickBestMove_available [OF False assms(2,3,4) this]
  obtain move where mv: "move \<in> set (available board)"
    "fst (pickBestMove board ai human difficulty draw1 draw2) = Move move" by blast
  then have "move < 9 \<and> board ! move = None" using assms(1) by (simp add: available_empty)
  moreover have "None \<in> set board" using False by (simp add: available_Nil_iff)
  ultimately show ?thesis using mv(2) by simp
qed

theorem pickBestMove_null_or_empty_cell_witness:
  "fst (pickBestMove emptyBoard PlayerO PlayerX Relaxed (1 / 4)
          (2001599834386887 / 4503599627370496)) = Move 4
   \<and> (4 :: nat) < 9 \<and> emptyBoard ! 4 = None"
proof -
  let ?d = "2001599834386887 / 4503599627370496 :: rat"
  have dbl: "round_double ?d = ?d"
  proof -
    have "binade ?d = - 2"
      by (rule binade_eq) (simp_all add: emin_def emax_def)
    then show ?thesis by (simp add: round_double_def round_half_even_def Let_def)
  qed
  have h: "length emptyBoard = 9" "0 \<le> ?d" "?d < 1"
    by (simp_all add: emptyBoard_def)
  have "binade (18014398509481983 / 4503599627370496) = 1"
    by (rule binade_eq) (simp_all add: emin_def emax_def)
  moreover have "round_half_even (18014398509481983 / 2) = 9007199254740992"
    by (subst round_half_even_floor [of 9007199254740991]) simp_all
  ultimately have k: "\<lfloor>round_double (?d * 9)\<rfloor> = 4"
    by (simp add: round_double_def)
  have r: "fst (pickBestMove emptyBoard PlayerO PlayerX Relaxed (1 / 4) ?d) = Move 4"
    using k
    by (simp add: pickBestMove_result emptyBoard_cells available9 wins_at_def board9
        mistakes_def at_index_def)
  from pickBestMove_null_or_empty_cell [OF h dbl, of PlayerO PlayerX Relaxed "1 / 4"] r
  show ?thesis by simp
qed

text \<open>
  C5. With distinct marks, \<open>minimax\<close> returns \<open>10 - depth\<close> when \<open>evaluateWinner\<close>
  reports the automated player's mark, \<open>depth - 10\<close> when it reports the opponent's,
  \<open>0\<close> on a full board without a winner, and otherwise the maximum (when maximising) or
  the minimum (when not) of the scores of the boards with the mark to move placed in each
  empty cell, searched at \<open>depth + 1\<close> with the flag flipped. The maximum is an element
  of the list that no element exceeds, the minimum one that exceeds no element.
\<close>

theorem minimax_cases:
  assumes "ai \<noteq> human"
  shows "(winner (evaluateWinner board) = Some ai \<longrightarrow>
            fst (minimax board depth m ai human) = Fin (10 - depth))
    \<and> (winner (evaluateWinner board) = Some human \<longrightarrow>
            fst (minimax board depth m ai human) = Fin (depth - 10))
    \<and> (winner (evaluateWinner board) = None \<and> every_Boolean board \<longrightarrow>
            fst (minimax board depth m ai human) = Fin 0)
    \<and> (winner (evaluateWinner board) = None \<and> \<not> every_Boolean board \<longrightarrow>
         (let scores = map (\<lambda>j. fst (minimax (board[j := Some (if m then ai else human)])
                                       (depth + 1) (\<not> m) ai human))
                           (filter (\<lambda>j. board ! j = None) [0..<length board]);
              result = fst (minimax board depth m ai human)
          in result = (if m then Math_max scores else Math_min scores)
             \<and> result \<in> set scores
             \<and> (\<forall>s\<in>set scores. if m then \<not> num_less result s else \<not> num_less s result)))"
proof -
  let ?scores = "map (\<lambda>j. fst (minimax (board[j := Some (if m then ai else human)])
                                       (depth + 1) (\<not> m) ai human))
                           (filter (\<lambda>j. board ! j = None) [0..<length board])"
  have 1: "winner (evaluateWinner board) = Some ai \<longrightarrow>
            fst (minimax board depth m ai human) = Fin (10 - depth)"
    by (subst minimax_unfold) simp
  have 2: "winner (evaluateWinner board) = Some human \<longrightarrow>
            fst (minimax board depth m ai human) = Fin (depth - 10)"
    using assms by (subst minimax_unfold) auto
  have 3: "winner (evaluateWinner board) = None \<and> every_Boolean board \<longrightarrow>
            fst (minimax board depth m ai human) = Fin 0"
    by (subst minimax_unfold) simp
  have 4: "fst (minimax board depth m ai human) = (if m then Math_max ?scores else Math_min ?scores)
      \<and> fst (minimax board depth m ai human) \<in> set ?scores
      \<and> (\<forall>s\<in>set ?scores. if m then \<not> num_less (fst (minimax board depth m ai human)) s
                           else \<not> num_less s (fst (minimax board depth m ai human)))"
    if a: "winner (evaluateWinner board) = None \<and> \<not> every_Boolean board"
  proof -
    have r: "fst (minimax board depth m ai human) = (if m then Math_max ?scores else Math_min ?scores)"
      using a by (subst minimax_unfold) (simp add: available_eq)
    have ne: "?scores \<noteq> []"
      using not_every_Boolean_available [of board] a by (simp add: available_eq)
    have fin: "\<forall>s\<in>set ?scores. \<exists>k. s = Fin k"
      using minimax_finite by auto
    show ?thesis
      unfolding r
      using Math_max_mem [OF ne fin] Math_min_mem [OF ne fin] Math_max_upper [of _ ?scores]
        Math_min_lower [of _ ?scores]
      by (cases m) simp_all
  qed
  from 4 have 5: "winner (evaluateWinner board) = None \<and> \<not> every_Boolean board \<longrightarrow>
      fst (minimax board depth m ai human) = (if m then Math_max ?scores else Math_min ?scores)
      \<and> fst (minimax board depth m ai human) \<in> set ?scores
      \<and> (\<forall>s\<in>set ?scores. if m then \<not> num_less (fst (minimax board depth m ai human)) s
                           else \<not> num_less s (fst (minimax board depth m ai human)))"
    by (rule impI)
  show ?thesis
    unfolding Let_def by (intro conjI 1 2 3 5)
qed

theorem minimax_cases_witness:
  "PlayerO \<noteq> PlayerX
   \<and> fst (minimax
     [Some PlayerX, Some PlayerX, None,
      Some PlayerO, Some PlayerO, None,
      Some PlayerX, Some PlayerO, Some PlayerX] 0 True PlayerO PlayerX)
     = Math_max
        [fst (minimax
           [Some PlayerX, Some PlayerX, Some PlayerO,
            Some PlayerO, Some PlayerO, None,
            Some PlayerX, Some PlayerO, Some PlayerX] 1 False PlayerO PlayerX),
         fst (minimax
           [Some PlayerX, Some PlayerX, None,
            Some PlayerO, Some PlayerO, Some PlayerO,
            Some PlayerX, Some PlayerO, Some PlayerX] 1 False PlayerO PlayerX)]
   \<and> fst (minimax
           [Some PlayerX, Some PlayerX, None,
            Some PlayerO, Some PlayerO, Some PlayerO,
            Some PlayerX, Some PlayerO, Some PlayerX] 1 False PlayerO PlayerX) = Fin 9"
proof -
  have d: "PlayerO \<noteq> PlayerX" by simp
  show ?thesis
    using minimax_cases [OF d,
        of "[Some PlayerX, Some PlayerX, None,
             Some PlayerO, Some PlayerO, None,
             Some PlayerX, Some PlayerO, Some PlayerX]" 0 True]
      minimax_cases [OF d,
        of "[Some PlayerX, Some PlayerX, None,
             Some PlayerO, Some PlayerO, Some PlayerO,
             Some PlayerX, Some PlayerO, Some PlayerX]" 1 False]
    by (simp add: evaluateWinner_def WINNING_TRIOS_def read_def every_Boolean_def upt_rec Let_def)
qed

text \<open>
  C6. On a 9-cell board on which some winning line is completed, \<open>evaluateWinner\<close>
  returns the first completed line of the enumeration (the three rows from the top, the
  three columns from the left, the diagonal from the top left, the diagonal from the top
  right) together with the mark that holds it.
\<close>

theorem evaluateWinner_first_completed_line:
  assumes "length board = 9" and "k < 8"
    and "line_held board p (WINNING_TRIOS ! k)"
    and "\<forall>j<k. \<forall>q. \<not> line_held board q (WINNING_TRIOS ! j)"
  shows "WINNING_TRIOS =
           [(0, 1, 2), (3, 4, 5), (6, 7, 8), (0, 3, 6), (1, 4, 7), (2, 5, 8), (0, 4, 8), (2, 4, 6)]
         \<and> evaluateWinner board = \<lparr>winner = Some p, line = Some (WINNING_TRIOS ! k)\<rparr>"
proof -
  have len: "length WINNING_TRIOS = 8" by (simp add: WINNING_TRIOS_def)
  have mem: "WINNING_TRIOS ! j \<in> set WINNING_TRIOS" if "j < 8" for j
    using that len by simp
  have "trio_complete board (WINNING_TRIOS ! k)"
    using trio_complete_iff [OF assms(1) mem [OF assms(2)]] assms(3) by blast
  moreover have "\<forall>j<k. \<not> trio_complete board (WINNING_TRIOS ! j)"
  proof (intro allI impI)
    fix j assume "j < k"
    then have "j < 8" using assms(2) by simp
    from trio_complete_iff [OF assms(1) mem [OF this]] assms(4) \<open>j < k\<close>
    show "\<not> trio_complete board (WINNING_TRIOS ! j)" by blast
  qed
  ultimately have "evaluateWinner board =
      \<lparr>winner = board ! fst (WINNING_TRIOS ! k), line = Some (WINNING_TRIOS ! k)\<rparr>"
    unfolding evaluateWinner_def using assms(2) len
    by (intro evaluateWinner_loop_first) simp_all
  moreover have "board ! fst (WINNING_TRIOS ! k) = Some p"
    using assms(3) by (cases "WINNING_TRIOS ! k") (auto simp: line_held_def)
  ultimately show ?thesis by (simp add: WINNING_TRIOS_def)
qed

theorem evaluateWinner_first_completed_line_witness:
  "evaluateWinner
     [Some PlayerX, Some PlayerO, Some PlayerO,
      Some PlayerX, Some PlayerX, Some PlayerX,
      Some PlayerX, None, None]
   = \<lparr>winner = Some PlayerX, line = Some (3, 4, 5)\<rparr>"
  using evaluateWinner_first_completed_line
    [of "[Some PlayerX, Some PlayerO, Some PlayerO,
          Some PlayerX, Some PlayerX, Some PlayerX,
          Some PlayerX, None, None]" 1 PlayerX]
  by (simp add: WINNING_TRIOS_def line_held_def)

text \<open>
  C7. When \<open>pickBestMove\<close> returns, and when any \<open>minimax\<close> call returns, the array is
  cell for cell as it was at the start of the call.
\<close>

theorem search_restores_board:
  "snd (pickBestMove board ai human difficulty draw1 draw2) = board
   \<and> snd (minimax board' depth m ai' human') = board'
   \<and> snd (minimax_loop i board' scores depth m ai' human') = board'"
proof (intro conjI)
  show "snd (pickBestMove board ai human difficulty draw1 draw2) = board"
    by (rule pickBestMove_board)
  show "snd (minimax board' depth m ai' human') = board'"
    by (rule minimax_board)
  show "snd (minimax_loop i board' scores depth m ai' human') = board'"
    by (rule minimax_loop_board)
qed

text \<open>
  C8. At difficulty \<^verbatim>\<open>"perfect"\<close> the mistake probability is 0, no draw of
  \<open>Math.random()\<close> is below it, and \<open>pickBestMove\<close> returns the same for any two pairs
  of draws.
\<close>

theorem perfect_ignores_draws:
  assumes "0 \<le> draw1" and "0 \<le> draw1'"
  shows "mistakes Perfect = 0 \<and> \<not> draw1 < mistakes Perfect
    \<and> pickBestMove board ai human Perfect draw1 draw2
        = pickBestMove board ai human Perfect draw1' draw2'"
proof -
  have m: "mistakes Perfect = 0" by (simp add: mistakes_def)
  have "pickBestMove board ai human Perfect d1 d2 = pickBestMove board ai human Perfect 0 0"
    if "0 \<le> d1" for d1 d2
    unfolding pickBestMove_def Let_def m using that
    by (auto split: prod.splits option.splits)
  from this [OF assms(1)] this [OF assms(2)]
  have "pickBestMove board ai human Perfect draw1 draw2
        = pickBestMove board ai human Perfect draw1' draw2'" by simp
  with m assms(1) show ?thesis by simp
qed

theorem perfect_ignores_draws_witness:
  "mistakes Perfect = 0 \<and> \<not> (1 / 4 :: rat) < mistakes Perfect
    \<and> pickBestMove emptyBoard PlayerX PlayerO Perfect (1 / 4) (1 / 2)
        = pickBestMove emptyBoard PlayerX PlayerO Perfect (3 / 4) 0"
proof -
  have h: "(0::rat) \<le> 1 / 4" "(0::rat) \<le> 3 / 4" by simp_all
  show ?thesis by (rule perfect_ignores_draws [OF h])
qed

text \<open>
  C9. In a round against the automated player at difficulty \<^verbatim>\<open>"perfect"\<close>, from the
  empty board, with either side starting and the opponent clicking any squares, no state
  is reached in which the opponent is recorded as the winner or holds a completed winning
  line: the automated player wins or ties.
\<close>

theorem perfect_never_loses:
  assumes "round_perfect humanSymbol s"
  shows "winnerState s \<noteq> Some (Won humanSymbol) \<and> \<not> has_line (boardState s) humanSymbol"
proof -
  from assms have "round_inv humanSymbol s"
  proof (induction rule: round_perfect.induct)
    case (fresh starter s)
    show ?case by (rule round_inv_fresh)
  next
    case (click s index)
    then show ?case by (intro round_inv_click)
  next
    case (bot s draw1 draw2 move)
    then show ?case by (intro round_inv_bot)
  qed
  then show ?thesis by (simp add: round_inv_def)
qed

theorem perfect_never_loses_witness:
  "\<exists>move.
     fst (pickBestMove
       (boardState (handleSquareClick PlayerX 4 (startFreshBoard PlayerX
          \<lparr>boardState = emptyBoard, currentPlayer = PlayerX, winnerState = None,
            highlightLine = None, scoreTally = (\<lambda>w. 0)\<rparr>)))
       PlayerO PlayerX Perfect (1 / 2) (1 / 2)) = Move move
     \<and> winnerState (makeMove move PlayerO (handleSquareClick PlayerX 4 (startFreshBoard PlayerX
          \<lparr>boardState = emptyBoard, currentPlayer = PlayerX, winnerState = None,
            highlightLine = None, scoreTally = (\<lambda>w. 0)\<rparr>))) \<noteq> Some (Won PlayerX)
     \<and> \<not> has_line (boardState (makeMove move PlayerO (handleSquareClick PlayerX 4
          (startFreshBoard PlayerX
          \<lparr>boardState = emptyBoard, currentPlayer = PlayerX, winnerState = None,
            highlightLine = None, scoreTally = (\<lambda>w. 0)\<rparr>)))) PlayerX"
proof -
  define s0 where "s0 = startFreshBoard PlayerX
          \<lparr>boardState = emptyBoard, currentPlayer = PlayerX, winnerState = None,
            highlightLine = None, scoreTally = (\<lambda>w. 0)\<rparr>"
  define s1 where "s1 = handleSquareClick PlayerX 4 s0"
  have s1: "boardState s1 = [None, None, None, None, Some PlayerX, None, None, None, None]"
    "winnerState s1 = None" "currentPlayer s1 = PlayerO"
    by (simp_all add: s1_def s0_def handleSquareClick_def makeMove_def startFreshBoard_def
        emptyBoard_cells read9 update9 winner9 every_Boolean9 nextPlayer_def Let_def)
  have r1: "round_perfect PlayerX s1"
    unfolding s1_def s0_def by (intro round_perfect.click round_perfect.fresh) simp
  have "\<exists>move\<in>set (available (boardState s1)).
      fst (pickBestMove (boardState s1) PlayerO PlayerX Perfect (1 / 2) (1 / 2)) = Move move"
    by (rule pickBestMove_available) (simp_all add: s1 available9 round_double_half)
  then obtain move where mv:
    "fst (pickBestMove (boardState s1) PlayerO PlayerX Perfect (1 / 2) (1 / 2)) = Move move"
    by blast
  have "round_perfect PlayerX (makeMove move (nextPlayer PlayerX) s1)"
    using r1 s1(2) _ _ _ _ _ mv [folded nextPlayer_def [of PlayerX, simplified]]
    by (rule round_perfect.bot) (simp_all add: s1 nextPlayer_def)
  then have "round_perfect PlayerX (makeMove move PlayerO s1)" by (simp add: nextPlayer_def)
  from perfect_never_loses [OF this] mv show ?thesis
    unfolding s1_def s0_def by blast
qed

text \<open>
  C10. A \<open>minimax\<close> call that reaches its loop, on a board that is not full, has an
  empty cell and collects a non-empty list of scores, so \<open>Math.max\<close> and \<open>Math.min\<close>
  are never applied to an empty list; and every call returns an integer, never an
  infinity. (That every call returns at all is the termination proof of \<open>minimax\<close>.)
\<close>

theorem minimax_scores_nonempty_finite:
  "(\<not> every_Boolean board \<longrightarrow>
      available board \<noteq> [] \<and> fst (minimax_loop 0 board [] depth m ai human) \<noteq> [])
   \<and> (\<exists>k. fst (minimax board depth m ai human) = Fin k)"
proof -
  have "fst (minimax_loop 0 board [] depth m ai human) \<noteq> []" if "\<not> every_Boolean board"
    using not_every_Boolean_available [OF that]
    by (simp add: minimax_loop_eq available_eq)
  then show ?thesis
    using not_every_Boolean_available minimax_finite by blast
qed

theorem minimax_scores_nonempty_finite_witness:
  "available
     [Some PlayerX, Some PlayerX, None,
      Some PlayerO, Some PlayerO, None,
      Some PlayerX, Some PlayerO, Some PlayerX] \<noteq> []
   \<and> fst (minimax_loop 0
     [Some PlayerX, Some PlayerX, None,
      Some PlayerO, Some PlayerO, None,
      Some PlayerX, Some PlayerO, Some PlayerX] [] 0 True PlayerO PlayerX) \<noteq> []
   \<and> (\<exists>k. fst (minimax
     [Some PlayerX, Some PlayerX, None,
      Some PlayerO, Some PlayerO, None,
      Some PlayerX, Some PlayerO, Some PlayerX] 0 True PlayerO PlayerX) = Fin k)"
  using minimax_scores_nonempty_finite
    [of "[Some PlayerX, Some PlayerX, None,
      Some PlayerO, Some PlayerO, None,
      Some PlayerX, Some PlayerO, Some PlayerX]" 0 True PlayerO PlayerX]
  by (simp add: every_Boolean_def)

end
